theory Spec2Isabelle
  imports Complex_Main "HOL-Library.Word"
begin

section \<open>The replay buffer of ACER (baselines/acer/buffer.py)\<close>

text \<open>
  Python exceptions are values: every function that can raise returns
  \<open>error + 'a\<close>, with \<open>Inl\<close> the exception. \<open>EmptyBufferError\<close> is the
  name the specification uses for sampling from an empty buffer; no statement
  of the source raises it. \<open>UninitialisedRead\<close> is not a Python exception:
  it marks a read of a cell that \<open>np.empty\<close> allocated and nothing wrote
  (the source would return whatever bytes are there). Neither is
  \<open>InvalidReference\<close>, which the programs on the explicit store of the last
  section give for an address that names no object.
\<close>

datatype error =
    ZeroDivisionError
  | IndexError
  | TypeError
  | AttributeError
  | ValueError
  | AssertionError
  | EmptyBufferError
  | UninitialisedRead
  | InvalidReference

text \<open>Sequencing of fallible steps: the first exception ends the call.\<close>

definition bind :: "error + 'a \<Rightarrow> ('a \<Rightarrow> error + 'b) \<Rightarrow> error + 'b" where
  "bind m f = (case m of Inl e \<Rightarrow> Inl e | Inr x \<Rightarrow> f x)"

subsection \<open>Data\<close>

text \<open>
  A numpy array is its shape and its elements in row-major order; \<open>array_ok\<close> says
  that there are as many elements as the shape asks for, which holds of every numpy
  array. The element type stands for the \<open>dtype\<close>: pixels are \<open>uint8\<close>, actions
  \<open>int32\<close>, and float32 values that the buffer only stores and copies are reals.
\<close>

record 'a ndarray =
  shape :: "nat list"
  data :: "'a list"

definition array_ok :: "'a ndarray \<Rightarrow> bool" where
  "array_ok a = (length (data a) = prod_list (shape a))"

text \<open>
  One rollout batch, the six arguments of \<open>put\<close>. The runner passes \<open>enc_obs\<close> of
  shape \<open>[n_env, n_steps + n_stack, nh, nw, nc]\<close>, \<open>actions\<close>, \<open>rewards\<close> and \<open>dones\<close>
  of shape \<open>[n_env, n_steps]\<close>, \<open>mus\<close> of shape \<open>[n_env, n_steps, n_act]\<close> and
  \<open>masks\<close> of shape \<open>[n_env, n_steps + 1]\<close>; \<open>put\<close> itself accepts any shapes.
\<close>

type_synonym pixel = "8 word"
type_synonym frame = "pixel list"

record batch =
  b_enc_obs :: "pixel ndarray"
  b_actions :: "32 word ndarray"
  b_rewards :: "real ndarray"
  b_mus :: "real ndarray"
  b_dones :: "bool ndarray"
  b_masks :: "bool ndarray"

text \<open>
  The part of the vectorised environment that \<open>Buffer.__init__\<close> reads:
  \<open>env.num_envs\<close> and \<open>env.observation_space.shape\<close>.
\<close>

record vec_env =
  num_envs :: nat
  observation_shape :: "nat \<times> nat \<times> nat"

text \<open>
  One of the six arrays of the buffer, \<open>np.empty([self.size] + list(x.shape))\<close>:
  \<open>slot_shape\<close> is the shape of the first batch's array \<open>x\<close>, and there are
  \<open>size\<close> slots of that shape. A slot is \<open>None\<close> while it still holds the
  uninitialised memory of \<open>np.empty\<close>, and otherwise its elements in row-major order.
\<close>

record 'a storage =
  slot_shape :: "nat list"
  slots :: "'a list option list"

text \<open>
  The six arrays are \<open>None\<close> until the first \<open>put\<close>. The field \<open>size\<close> of the
  source is \<open>size_slots\<close> here.
\<close>

record buffer =
  n_env :: nat
  n_steps :: nat
  height :: nat
  width :: nat
  n_channels :: nat
  n_stack :: nat
  n_batch :: nat
  size_slots :: nat
  enc_obs :: "pixel storage option"
  actions :: "32 word storage option"
  rewards :: "real storage option"
  mus :: "real storage option"
  dones :: "bool storage option"
  masks :: "bool storage option"
  next_idx :: nat
  num_in_buffer :: nat

subsection \<open>Construction, \<open>has_atleast\<close>, \<open>can_sample\<close>\<close>

text \<open>
  \<open>Buffer.__init__\<close>: the only statement that can raise is the floor division
  \<open>size // self.n_steps\<close>. Nothing compares \<open>size\<close> with \<open>n_steps\<close>.
\<close>

definition Buffer_init :: "vec_env \<Rightarrow> nat \<Rightarrow> nat \<Rightarrow> nat \<Rightarrow> error + buffer" where
  "Buffer_init env n_steps0 n_stack0 size0 =
     (case observation_shape env of (h, w, c) \<Rightarrow>
        if n_steps0 = 0 then Inl ZeroDivisionError
        else Inr \<lparr> n_env = num_envs env, n_steps = n_steps0,
                   height = h, width = w, n_channels = c,
                   n_stack = n_stack0,
                   n_batch = num_envs env * n_steps0,
                   size_slots = size0 div n_steps0,
                   enc_obs = None, actions = None, rewards = None,
                   mus = None, dones = None, masks = None,
                   next_idx = 0, num_in_buffer = 0 \<rparr>)"

text \<open>\<open>has_atleast\<close>: \<open>self.num_in_buffer >= (frames // self.n_steps)\<close>.\<close>

definition has_atleast :: "buffer \<Rightarrow> nat \<Rightarrow> error + bool" where
  "has_atleast b frames =
     (if n_steps b = 0 then Inl ZeroDivisionError
      else Inr (num_in_buffer b \<ge> frames div n_steps b))"

definition can_sample :: "buffer \<Rightarrow> bool" where
  "can_sample b = (num_in_buffer b > 0)"

subsection \<open>\<open>put\<close>\<close>

text \<open>
  Broadcasting in an assignment \<open>arr[idx] = v\<close>, the slot \<open>arr[idx]\<close> having shape
  \<open>dst\<close>. numpy drops axes of length 1 from the left of the shape of \<open>v\<close> while
  \<open>v\<close> has more axes than the slot (\<open>strip_ones\<close>); a value that still has more
  axes does not fit. The shape is then padded with axes of length 1 on the left, and
  every axis of \<open>v\<close> must have the length of the slot's axis or length 1
  (\<open>broadcastable\<close>). \<open>bcast_data dst src d\<close> lays out the elements \<open>d\<close> of an array
  of shape \<open>src\<close> in the shape \<open>dst\<close>: an axis of the same length is copied entry
  by entry, an axis of length 1 is repeated.
\<close>

fun strip_ones :: "nat \<Rightarrow> nat list \<Rightarrow> nat list" where
  "strip_ones r [] = []"
| "strip_ones r (s # ss) = (if r < length (s # ss) \<and> s = 1 then strip_ones r ss else s # ss)"

definition broadcastable :: "nat list \<Rightarrow> nat list \<Rightarrow> bool" where
  "broadcastable dst src = list_all2 (\<lambda>t s. s = t \<or> s = 1) dst src"

fun bcast_data :: "nat list \<Rightarrow> nat list \<Rightarrow> 'a list \<Rightarrow> 'a list" where
  "bcast_data (t # ts) (s # ss) d =
     (if s = t
      then concat (map (\<lambda>i. bcast_data ts ss (take (prod_list ss) (drop (i * prod_list ss) d))) [0..<t])
      else concat (replicate t (bcast_data ts ss d)))"
| "bcast_data [] src d = d"
| "bcast_data (t # ts) [] d = d"

definition broadcast_to :: "nat list \<Rightarrow> 'a ndarray \<Rightarrow> 'a list option" where
  "broadcast_to dst v =
     (let ss = strip_ones (length dst) (shape v);
          src = replicate (length dst - length ss) 1 @ ss
      in
      if length dst < length ss \<or> \<not> broadcastable dst src then None
      else Some (bcast_data dst src (data v)))"

text \<open>
  \<open>arr[idx] = v\<close> on one of the six arrays: a \<open>TypeError\<close> when the field is
  still \<open>None\<close>, an \<open>IndexError\<close> when the index is not a slot of the array, a
  \<open>ValueError\<close> when \<open>v\<close> cannot be broadcast to the shape of the slot; otherwise
  the slot receives \<open>v\<close> broadcast to its shape.
\<close>

definition store_slot :: "'a storage option \<Rightarrow> nat \<Rightarrow> 'a ndarray \<Rightarrow> error + 'a storage option" where
  "store_slot arr idx v =
     (case arr of
        None \<Rightarrow> Inl TypeError
      | Some st \<Rightarrow>
          if length (slots st) \<le> idx then Inl IndexError
          else case broadcast_to (slot_shape st) v of
                 None \<Rightarrow> Inl ValueError
               | Some d \<Rightarrow> Inr (Some (st\<lparr> slots := (slots st)[idx := Some d] \<rparr>)))"

text \<open>
  The lazy allocation on the first \<open>put\<close>, each array
  \<open>np.empty([self.size] + list(x.shape))\<close> for the argument \<open>x\<close> it will store.
\<close>

definition empty_storage :: "nat \<Rightarrow> 'a ndarray \<Rightarrow> 'a storage" where
  "empty_storage n x = \<lparr> slot_shape = shape x, slots = replicate n None \<rparr>"

definition allocate :: "buffer \<Rightarrow> batch \<Rightarrow> buffer" where
  "allocate b x =
     (if enc_obs b = None
      then b\<lparr> enc_obs := Some (empty_storage (size_slots b) (b_enc_obs x)),
               actions := Some (empty_storage (size_slots b) (b_actions x)),
               rewards := Some (empty_storage (size_slots b) (b_rewards x)),
               mus := Some (empty_storage (size_slots b) (b_mus x)),
               dones := Some (empty_storage (size_slots b) (b_dones x)),
               masks := Some (empty_storage (size_slots b) (b_masks x)) \<rparr>
      else b)"

definition put :: "buffer \<Rightarrow> batch \<Rightarrow> error + buffer" where
  "put b0 x =
     (let b = allocate b0 x in
      bind (store_slot (enc_obs b) (next_idx b) (b_enc_obs x)) (\<lambda>eo.
      bind (store_slot (actions b) (next_idx b) (b_actions x)) (\<lambda>ac.
      bind (store_slot (rewards b) (next_idx b) (b_rewards x)) (\<lambda>rw.
      bind (store_slot (mus b) (next_idx b) (b_mus x)) (\<lambda>mu.
      bind (store_slot (dones b) (next_idx b) (b_dones x)) (\<lambda>dn.
      bind (store_slot (masks b) (next_idx b) (b_masks x)) (\<lambda>mk.
        if size_slots b = 0 then Inl ZeroDivisionError
        else Inr (b\<lparr> enc_obs := eo, actions := ac, rewards := rw,
                      mus := mu, dones := dn, masks := mk,
                      next_idx := (next_idx b + 1) mod size_slots b,
                      num_in_buffer := min (size_slots b) (num_in_buffer b + 1) \<rparr>))))))))"

text \<open>A run of \<open>put\<close> calls, oldest batch first.\<close>

fun puts :: "buffer \<Rightarrow> batch list \<Rightarrow> error + buffer" where
  "puts b [] = Inr b"
| "puts b (x # xs) = bind (put b x) (\<lambda>b'. puts b' xs)"

text \<open>Reading slot \<open>j\<close> of one of the six arrays (\<open>None\<close>: not allocated or never written).\<close>

definition peek :: "'a storage option \<Rightarrow> nat \<Rightarrow> 'a list option" where
  "peek arr j = (case arr of None \<Rightarrow> None | Some st \<Rightarrow> slots st ! j)"

subsection \<open>Vocabulary of the proofs about \<open>put\<close>\<close>

text \<open>
  \<open>ring s hs f arr\<close>: the array \<open>arr\<close> is what successful calls of \<open>put\<close> leave after
  the batches \<open>hs\<close> (oldest first) went into a buffer of \<open>s\<close> slots, \<open>f\<close> selecting the
  argument the array stores: not allocated before the first batch; afterwards \<open>s\<close>
  slots of the shape of the first batch's argument, each of the last \<open>s\<close> batches,
  broadcast to that shape, in the slot of its number modulo \<open>s\<close>, and every slot
  below \<open>min (length hs) s\<close> written.
\<close>

definition holds :: "nat list \<Rightarrow> 'a ndarray \<Rightarrow> 'a list option \<Rightarrow> bool" where
  "holds shp v slot = (slot \<noteq> None \<and> slot = broadcast_to shp v)"

definition ring :: "nat \<Rightarrow> 'b list \<Rightarrow> ('b \<Rightarrow> 'a ndarray) \<Rightarrow> 'a storage option \<Rightarrow> bool" where
  "ring s hs f arr =
     (if hs = [] then arr = None
      else \<exists>st. arr = Some st \<and> slot_shape st = shape (f (hd hs)) \<and> length (slots st) = s
             \<and> (\<forall>i<length hs. length hs - i \<le> s \<longrightarrow> holds (slot_shape st) (f (hs ! i)) (slots st ! (i mod s)))
             \<and> (\<forall>j<min (length hs) s. \<exists>i<length hs. holds (slot_shape st) (f (hs ! i)) (slots st ! j)))"

definition buf_inv :: "buffer \<Rightarrow> batch list \<Rightarrow> buffer \<Rightarrow> bool" where
  "buf_inv b0 hs b =
     (n_env b = n_env b0 \<and> n_steps b = n_steps b0 \<and> height b = height b0
      \<and> width b = width b0 \<and> n_channels b = n_channels b0 \<and> n_stack b = n_stack b0
      \<and> n_batch b = n_batch b0 \<and> size_slots b = size_slots b0
      \<and> next_idx b = length hs mod size_slots b0
      \<and> num_in_buffer b = min (length hs) (size_slots b0)
      \<and> ring (size_slots b0) hs b_enc_obs (enc_obs b)
      \<and> ring (size_slots b0) hs b_actions (actions b)
      \<and> ring (size_slots b0) hs b_rewards (rewards b)
      \<and> ring (size_slots b0) hs b_mus (mus b)
      \<and> ring (size_slots b0) hs b_dones (dones b)
      \<and> ring (size_slots b0) hs b_masks (masks b))"

text \<open>
  Batches of arrays (\<open>arrays_ok\<close>) whose six shapes are those of the batch \<open>x\<close>
  (\<open>same_shapes x\<close>), as the runner produces them rollout after rollout.
\<close>

definition arrays_ok :: "batch \<Rightarrow> bool" where
  "arrays_ok x =
     (array_ok (b_enc_obs x) \<and> array_ok (b_actions x) \<and> array_ok (b_rewards x)
      \<and> array_ok (b_mus x) \<and> array_ok (b_dones x) \<and> array_ok (b_masks x))"

definition same_shapes :: "batch \<Rightarrow> batch \<Rightarrow> bool" where
  "same_shapes x y =
     (shape (b_enc_obs y) = shape (b_enc_obs x) \<and> shape (b_actions y) = shape (b_actions x)
      \<and> shape (b_rewards y) = shape (b_rewards x) \<and> shape (b_mus y) = shape (b_mus x)
      \<and> shape (b_dones y) = shape (b_dones x) \<and> shape (b_masks y) = shape (b_masks x))"

subsection \<open>Example inputs\<close>

text \<open>
  One environment with 1 x 1 x 1 frames, and three rollout batches of \<open>n_steps = 2\<close>
  with \<open>n_stack = 4\<close>: six raw frames, two actions, rewards, behaviour probabilities
  (for two actions) and termination flags, three masks.
\<close>

definition env1 :: vec_env where
  "env1 = \<lparr> num_envs = 1, observation_shape = (1, 1, 1) \<rparr>"

definition batch_a :: batch where
  "batch_a = \<lparr> b_enc_obs = \<lparr> shape = [1, 6, 1, 1, 1], data = [1, 2, 3, 4, 5, 6] \<rparr>,
               b_actions = \<lparr> shape = [1, 2], data = [0, 1] \<rparr>,
               b_rewards = \<lparr> shape = [1, 2], data = [0, 1] \<rparr>,
               b_mus = \<lparr> shape = [1, 2, 2], data = [1/2, 1/2, 1/4, 3/4] \<rparr>,
               b_dones = \<lparr> shape = [1, 2], data = [False, True] \<rparr>,
               b_masks = \<lparr> shape = [1, 3], data = [False, False, True] \<rparr> \<rparr>"

definition batch_b :: batch where
  "batch_b = \<lparr> b_enc_obs = \<lparr> shape = [1, 6, 1, 1, 1], data = [3, 4, 5, 6, 7, 8] \<rparr>,
               b_actions = \<lparr> shape = [1, 2], data = [1, 1] \<rparr>,
               b_rewards = \<lparr> shape = [1, 2], data = [2, 0] \<rparr>,
               b_mus = \<lparr> shape = [1, 2, 2], data = [1/2, 1/2, 1/2, 1/2] \<rparr>,
               b_dones = \<lparr> shape = [1, 2], data = [False, False] \<rparr>,
               b_masks = \<lparr> shape = [1, 3], data = [True, False, False] \<rparr> \<rparr>"

definition batch_c :: batch where
  "batch_c = \<lparr> b_enc_obs = \<lparr> shape = [1, 6, 1, 1, 1], data = [5, 6, 7, 8, 9, 10] \<rparr>,
               b_actions = \<lparr> shape = [1, 2], data = [0, 0] \<rparr>,
               b_rewards = \<lparr> shape = [1, 2], data = [1, 1] \<rparr>,
               b_mus = \<lparr> shape = [1, 2, 2], data = [1/4, 3/4, 1/2, 1/2] \<rparr>,
               b_dones = \<lparr> shape = [1, 2], data = [True, False] \<rparr>,
               b_masks = \<lparr> shape = [1, 3], data = [False, True, False] \<rparr> \<rparr>"

text \<open>
  Two batches that differ in shape from \<open>batch_a\<close>: in \<open>batch_row\<close> the rewards are
  the one-axis array \<open>[5, 7]\<close>, which broadcasts to \<open>[1, 2]\<close>; in \<open>batch_short\<close>
  the observations have five frames instead of six.
\<close>

definition batch_row :: batch where
  "batch_row = batch_b\<lparr> b_rewards := \<lparr> shape = [2], data = [5, 7] \<rparr> \<rparr>"

definition batch_short :: batch where
  "batch_short = batch_b\<lparr> b_enc_obs := \<lparr> shape = [1, 5, 1, 1, 1], data = [3, 4, 5, 6, 7] \<rparr> \<rparr>"

text \<open>The buffer that \<open>Buffer(env, n_steps=2, n_stack=4, size=4)\<close> constructs: two slots.\<close>

definition buffer_2 :: buffer where
  "buffer_2 = \<lparr> n_env = 1, n_steps = 2, height = 1, width = 1, n_channels = 1,
                n_stack = 4, n_batch = 2, size_slots = 2,
                enc_obs = None, actions = None, rewards = None,
                mus = None, dones = None, masks = None,
                next_idx = 0, num_in_buffer = 0 \<rparr>"

subsection \<open>\<open>decode\<close>: rebuilding the stacked observations\<close>

text \<open>
  Inside \<open>decode\<close> the arrays, whose shapes the code fixes, are nested lists,
  outermost axis first. \<open>np.reshape\<close> reads the elements of its argument in
  row-major order and fails with a \<open>ValueError\<close> when their number differs from the
  product of the new shape; \<open>rows n m\<close> cuts a flat list into \<open>n\<close> rows of \<open>m\<close>
  elements. \<open>swapaxes t\<close> is \<open>.swapaxes(1, 0)\<close> on an array whose second axis has
  length \<open>t\<close>.
\<close>

definition rows :: "nat \<Rightarrow> nat \<Rightarrow> 'a list \<Rightarrow> 'a list list" where
  "rows n m xs = map (\<lambda>i. take m (drop (i * m) xs)) [0..<n]"

definition swapaxes :: "nat \<Rightarrow> 'a list list \<Rightarrow> 'a list list" where
  "swapaxes t xss = map (\<lambda>j. map (\<lambda>row. row ! j) xss) [0..<t]"

text \<open>\<open>np.reshape(enc_obs, [n_env, t, height, width, n_channels])\<close>, a frame being
  \<open>npix = height * width * n_channels\<close> pixels.\<close>

definition reshape_frames :: "nat \<Rightarrow> nat \<Rightarrow> nat \<Rightarrow> pixel ndarray \<Rightarrow> error + frame list list" where
  "reshape_frames n t npix a =
     (let flat = data a in
      if length flat \<noteq> n * t * npix then Inl ValueError
      else Inr (map (rows t npix) (rows n (t * npix) flat)))"

text \<open>\<open>np.reshape(1.0 - dones, [n_env, n_steps, 1, 1, 1])\<close>: the keep mask, 1 where the
  step did not end an episode and 0 where it did.\<close>

definition keep :: "bool \<Rightarrow> nat" where
  "keep d = 1 - of_bool d"

definition reshape_keep :: "nat \<Rightarrow> nat \<Rightarrow> bool ndarray \<Rightarrow> error + nat list list" where
  "reshape_keep n t d =
     (let flat = map keep (data d) in
      if length flat \<noteq> n * t then Inl ValueError
      else Inr (rows n t flat))"

text \<open>
  A frame times a mask value. The masks are 0.0 and 1.0 and the pixels are \<open>uint8\<close>,
  so the float32 products are exact and the cast back to \<open>uint8\<close> on the store into
  \<open>obs\<close> changes nothing.
\<close>

definition mul_frame :: "frame \<Rightarrow> nat \<Rightarrow> frame" where
  "mul_frame f y = map (\<lambda>p. p * of_nat y) f"

text \<open>
  \<open>y_var[3:] = src; y_var[:3] = 1.0\<close> on \<open>y_var = np.empty([l, n_env, 1, 1, 1])\<close>, where
  \<open>src\<close> has \<open>n\<close> rows. The slice \<open>y_var[3:]\<close> has \<open>l - 3\<close> rows (none when
  \<open>l \<le> 3\<close>); the assignment needs \<open>src\<close> to have as many, or one row, which numpy
  repeats; anything else is a \<open>ValueError\<close>. The two assignments together write
  every row.
\<close>

definition fill_keep :: "nat \<Rightarrow> nat \<Rightarrow> nat \<Rightarrow> nat list list \<Rightarrow> error + nat list list" where
  "fill_keep l n_env0 n src =
     (if n = l - 3 then Inr (replicate (min 3 l) (replicate n_env0 1) @ src)
      else if n = 1 then Inr (replicate (min 3 l) (replicate n_env0 1) @ replicate (l - 3) (src ! 0))
      else Inl ValueError)"

text \<open>
  One pass of the loop \<open>for i in range(n_stack)\<close> on \<open>(obs, x_var, y_var)\<close>:
  \<open>obs[-(i + 1), i:] = x_var; x_var = x_var[:-1] * y_var; y_var = y_var[1:]\<close>.
  In pass \<open>i\<close> the array \<open>x_var\<close> has the \<open>n_steps + n_stack - i\<close> rows of the
  slice it is stored into, and one row more than \<open>y_var\<close>.
\<close>

definition decode_step ::
  "nat \<Rightarrow> nat \<Rightarrow> frame list list list \<times> frame list list \<times> nat list list
     \<Rightarrow> frame list list list \<times> frame list list \<times> nat list list" where
  "decode_step n_stack0 i s =
     (case s of (obs, x_var, y_var) \<Rightarrow>
        (obs[n_stack0 - (i + 1) := take i (obs ! (n_stack0 - (i + 1))) @ x_var],
         map2 (map2 mul_frame) (butlast x_var) y_var,
         tl y_var))"

text \<open>
  \<open>decode\<close>. The result has an entry per environment and per step \<open>0 .. n_steps\<close>:
  the stacked observation, kept as the list of its \<open>n_stack\<close> frames, oldest first
  (the source concatenates them along the channel axis in this order). The last
  \<open>np.reshape\<close> compares the number of elements of \<open>obs[:, 3:]\<close> with that of the
  shape \<open>[n_env, n_steps + 1, height, width, n_stack * n_channels]\<close>; when they agree
  without \<open>obs[:, 3:]\<close> having \<open>n_steps + 1\<close> rows, both are zero and the result is
  the empty array of that shape.
\<close>

definition decode :: "buffer \<Rightarrow> pixel ndarray \<Rightarrow> bool ndarray \<Rightarrow> error + frame list list list" where
  "decode b enc dn =
     (let npix = height b * width b * n_channels b;
          t = n_steps b + n_stack b;
          obs0 = replicate (n_stack b) (replicate t (replicate (n_env b) (replicate npix 0)))
      in
      bind (reshape_frames (n_env b) t npix enc) (\<lambda>x.
      bind (reshape_keep (n_env b) (n_steps b) dn) (\<lambda>k.
      bind (fill_keep (t - 1) (n_env b) (n_steps b) (swapaxes (n_steps b) k)) (\<lambda>y_var.
        let obs = fst (fold (decode_step (n_stack b)) [0..<n_stack b] (obs0, swapaxes t x, y_var)) in
        if n_stack b * (t - 3) * n_env b * npix \<noteq> n_env b * (n_steps b + 1) * npix * n_stack b
        then Inl ValueError
        else Inr (map (\<lambda>e. map (\<lambda>k. map (\<lambda>j.
                      if t - 3 = n_steps b + 1 then obs ! j ! (k + 3) ! e else replicate npix 0)
                    [0..<n_stack b]) [0..<n_steps b + 1]) [0..<n_env b])))))"

text \<open>The buffer of \<open>Buffer(env, n_steps=2, n_stack=2, size=4)\<close> and a trace for it:
  \<open>n_steps + n_stack = 4\<close> frames numbered 1 to 4, the episode ending at step 1.\<close>

definition buffer_stack2 :: buffer where
  "buffer_stack2 = \<lparr> n_env = 1, n_steps = 2, height = 1, width = 1, n_channels = 1,
                n_stack = 2, n_batch = 2, size_slots = 2,
                enc_obs = None, actions = None, rewards = None,
                mus = None, dones = None, masks = None,
                next_idx = 0, num_in_buffer = 0 \<rparr>"

definition buffer_stack1 :: buffer where
  "buffer_stack1 = \<lparr> n_env = 1, n_steps = 2, height = 1, width = 1, n_channels = 1,
                n_stack = 1, n_batch = 2, size_slots = 2,
                enc_obs = None, actions = None, rewards = None,
                mus = None, dones = None, masks = None,
                next_idx = 0, num_in_buffer = 0 \<rparr>"

text \<open>
  Vocabulary of the proofs: the arrays \<open>x_var\<close> and \<open>dones\<close> of \<open>decode\<close> after
  their \<open>np.reshape\<close>, as nested lists (\<open>frames_of\<close>: a row of \<open>n_steps + n_stack\<close>
  frames per environment; \<open>flags_of\<close>: a row of \<open>n_steps\<close> flags per environment),
  and \<open>x_var\<close> at the start of pass \<open>i\<close> of the loop, from the arrays \<open>x\<close> and
  \<open>y\<close> the loop starts with.
\<close>

definition frames_of :: "buffer \<Rightarrow> pixel ndarray \<Rightarrow> frame list list" where
  "frames_of b enc =
     map (rows (n_steps b + n_stack b) (height b * width b * n_channels b))
         (rows (n_env b) ((n_steps b + n_stack b) * (height b * width b * n_channels b)) (data enc))"

definition flags_of :: "buffer \<Rightarrow> bool ndarray \<Rightarrow> bool list list" where
  "flags_of b dn = rows (n_env b) (n_steps b) (data dn)"


fun masked :: "frame list list \<Rightarrow> nat list list \<Rightarrow> nat \<Rightarrow> frame list list" where
  "masked x y 0 = x"
| "masked x y (Suc i) = map2 (map2 mul_frame) (butlast (masked x y i)) (drop i y)"

subsection \<open>\<open>take\<close> and \<open>get\<close>\<close>

text \<open>Running fallible steps in order and collecting their results.\<close>

fun collect :: "(error + 'a) list \<Rightarrow> error + 'a list" where
  "collect [] = Inr []"
| "collect (r # rs) = bind r (\<lambda>v. bind (collect rs) (\<lambda>vs. Inr (v # vs)))"

text \<open>
  \<open>arr[s, e]\<close>: in slot \<open>s\<close> of the array, entry \<open>e\<close> of the first axis of the
  batch stored there, that is the \<open>e\<close>-th block of as many elements as the other
  axes of the slot hold. An \<open>IndexError\<close> when \<open>s\<close> is not a slot, when the slot
  has no axis, or when \<open>e\<close> is not an index of its first axis.
\<close>

definition read_cell :: "'a storage \<Rightarrow> nat \<Rightarrow> nat \<Rightarrow> error + 'a list" where
  "read_cell st s e =
     (if length (slots st) \<le> s then Inl IndexError
      else case slot_shape st of
             [] \<Rightarrow> Inl IndexError
           | n # sh \<Rightarrow>
               if n \<le> e then Inl IndexError
               else case slots st ! s of
                      None \<Rightarrow> Inl UninitialisedRead
                    | Some d \<Rightarrow> Inr (take (prod_list sh) (drop (e * prod_list sh) d)))"

text \<open>
  \<open>take\<close> (here \<open>take_arr\<close>): \<open>out[i] = arr[idx[i], envx[i]]\<close> for each environment
  \<open>i\<close>, into a new array \<open>out\<close> of shape \<open>[n_env] + list(arr.shape[2:])\<close>. Reading
  \<open>arr.shape\<close> of an array that is still \<open>None\<close> is an \<open>AttributeError\<close>.
\<close>

definition take_arr :: "nat \<Rightarrow> 'a storage option \<Rightarrow> nat list \<Rightarrow> nat list \<Rightarrow> error + 'a ndarray" where
  "take_arr n_env0 arr idx envx =
     (case arr of
        None \<Rightarrow> Inl AttributeError
      | Some st \<Rightarrow>
          bind (collect (map (\<lambda>i. read_cell st (idx ! i) (envx ! i)) [0..<n_env0])) (\<lambda>cells.
            Inr \<lparr> shape = n_env0 # drop 1 (slot_shape st), data = concat cells \<rparr>))"

text \<open>
  \<open>get\<close>. The random draw \<open>np.random.randint(0, self.num_in_buffer, n_env)\<close> is an
  argument: \<open>rnd i\<close> is the raw random number behind the index for environment
  \<open>i\<close>, reduced to the range of the draw, so that every function \<open>rnd\<close> is a
  possible draw and every possible draw comes from some \<open>rnd\<close>. The call returns
  the six arrays and, as the state after the call, the buffer: \<open>get\<close>, \<open>take\<close>
  and \<open>decode\<close> assign to no field of \<open>self\<close> and to no element of its arrays.
\<close>

type_synonym sample =
  "frame list list list \<times> 32 word ndarray \<times> real ndarray \<times> real ndarray
     \<times> bool ndarray \<times> bool ndarray"

definition get :: "buffer \<Rightarrow> (nat \<Rightarrow> nat) \<Rightarrow> error + (sample \<times> buffer)" where
  "get b rnd =
     (if \<not> can_sample b then Inl AssertionError
      else
        let idx = map (\<lambda>i. rnd i mod num_in_buffer b) [0..<n_env b];
            envx = [0..<n_env b]
        in
        bind (take_arr (n_env b) (dones b) idx envx) (\<lambda>dn.
        bind (take_arr (n_env b) (enc_obs b) idx envx) (\<lambda>eo.
        bind (decode b eo dn) (\<lambda>obs.
        bind (take_arr (n_env b) (actions b) idx envx) (\<lambda>ac.
        bind (take_arr (n_env b) (rewards b) idx envx) (\<lambda>rw.
        bind (take_arr (n_env b) (mus b) idx envx) (\<lambda>mu.
        bind (take_arr (n_env b) (masks b) idx envx) (\<lambda>mk.
          Inr ((obs, ac, rw, mu, dn, mk), b)))))))))"

text \<open>
  Raw observations and termination flags of the shape that \<open>decode\<close> expects for
  a buffer \<open>b\<close>: \<open>[n_env, n_steps + n_stack, height, width, n_channels]\<close> and
  \<open>[n_env, n_steps]\<close>.
\<close>

definition frames_ok :: "buffer \<Rightarrow> pixel ndarray \<Rightarrow> bool ndarray \<Rightarrow> bool" where
  "frames_ok b enc dn =
     (array_ok enc
      \<and> shape enc = [n_env b, n_steps b + n_stack b, height b, width b, n_channels b]
      \<and> array_ok dn
      \<and> shape dn = [n_env b, n_steps b])"

text \<open>
  A batch as the runner hands it to \<open>put\<close> for a buffer \<open>b\<close>: observations and
  flags as above, and the other four arrays with a first axis of length \<open>n_env\<close>.
\<close>

definition env_rows :: "buffer \<Rightarrow> 'a ndarray \<Rightarrow> bool" where
  "env_rows b a = (array_ok a \<and> take 1 (shape a) = [n_env b])"

definition batch_ok :: "buffer \<Rightarrow> batch \<Rightarrow> bool" where
  "batch_ok b x =
     (frames_ok b (b_enc_obs x) (b_dones x)
      \<and> env_rows b (b_actions x)
      \<and> env_rows b (b_rewards x)
      \<and> env_rows b (b_mus x)
      \<and> env_rows b (b_masks x))"

text \<open>A draw in which every raw random number is 7.\<close>

definition draw_7 :: "nat \<Rightarrow> nat" where
  "draw_7 i = 7"

text \<open>The two-slot buffer after \<open>put\<close> of the first example batch.\<close>

definition buffer_2a :: buffer where
  "buffer_2a = \<lparr> n_env = 1, n_steps = 2, height = 1, width = 1, n_channels = 1,
                n_stack = 4, n_batch = 2, size_slots = 2,
                enc_obs = Some \<lparr> slot_shape = [1, 6, 1, 1, 1], slots = [Some [1, 2, 3, 4, 5, 6], None] \<rparr>,
                actions = Some \<lparr> slot_shape = [1, 2], slots = [Some [0, 1], None] \<rparr>,
                rewards = Some \<lparr> slot_shape = [1, 2], slots = [Some [0, 1], None] \<rparr>,
                mus = Some \<lparr> slot_shape = [1, 2, 2], slots = [Some [1/2, 1/2, 1/4, 3/4], None] \<rparr>,
                dones = Some \<lparr> slot_shape = [1, 2], slots = [Some [False, True], None] \<rparr>,
                masks = Some \<lparr> slot_shape = [1, 3], slots = [Some [False, False, True], None] \<rparr>,
                next_idx = 1, num_in_buffer = 1 \<rparr>"

section \<open>The Retrace targets (baselines/acer/acer_simple.py)\<close>

text \<open>
  A float32 tensor of shape \<open>[n]\<close> is a list of \<open>n\<close> reals: the arithmetic of the
  source is taken exactly, without the rounding of float32. The operators of
  TensorFlow act element by element; a Python float is broadcast.
\<close>

type_synonym tensor = "real list"

definition t_add :: "tensor \<Rightarrow> tensor \<Rightarrow> tensor" where
  "t_add a b = map2 (+) a b"

definition t_sub :: "tensor \<Rightarrow> tensor \<Rightarrow> tensor" where
  "t_sub a b = map2 (-) a b"

definition t_mul :: "tensor \<Rightarrow> tensor \<Rightarrow> tensor" where
  "t_mul a b = map2 (*) a b"

definition t_scale :: "real \<Rightarrow> tensor \<Rightarrow> tensor" where
  "t_scale c a = map (\<lambda>x. c * x) a"

definition t_one_minus :: "tensor \<Rightarrow> tensor" where
  "t_one_minus a = map (\<lambda>x. 1 - x) a"

definition t_minimum :: "real \<Rightarrow> tensor \<Rightarrow> tensor" where
  "t_minimum c a = map (\<lambda>x. min c x) a"

text \<open>
  Modelled from the spec: \<open>batch_to_seq\<close>, \<open>seq_to_batch\<close> and \<open>check_shape\<close> are
  functions of \<open>baselines/a2c/utils.py\<close>, which is not among the sources. A batch
  holds, for each environment in turn, its \<open>n_steps\<close> consecutive steps (the
  rollout arrays of shape \<open>[n_env, n_steps]\<close> are flattened to \<open>[n_batch]\<close> by
  \<open>Acer.call\<close>); \<open>batch_to_seq\<close> with \<open>flat=True\<close> gives, as the comments in
  \<open>q_retrace\<close> say, a list of \<open>n_steps\<close> tensors of shape \<open>[n_envs]\<close>, one per
  step, and fails when the batch has not \<open>n_envs * n_steps\<close> elements or there is
  no step to split into; \<open>seq_to_batch\<close> is its inverse; \<open>check_shape\<close> asserts
  that each tensor has the shape listed for it.
\<close>

definition batch_to_seq :: "tensor \<Rightarrow> nat \<Rightarrow> nat \<Rightarrow> error + tensor list" where
  "batch_to_seq xs n_envs0 n_steps0 =
     (if n_steps0 = 0 \<or> length xs \<noteq> n_envs0 * n_steps0 then Inl ValueError
      else Inr (map (\<lambda>t. map (\<lambda>e. xs ! (e * n_steps0 + t)) [0..<n_envs0]) [0..<n_steps0]))"

definition seq_to_batch :: "tensor list \<Rightarrow> error + tensor" where
  "seq_to_batch ts =
     (case ts of
        [] \<Rightarrow> Inl IndexError
      | t0 # _ \<Rightarrow> Inr (concat (map (\<lambda>e. map (\<lambda>t. t ! e) ts) [0..<length t0])))"

definition check_shape :: "tensor list \<Rightarrow> nat \<Rightarrow> bool" where
  "check_shape ts n = list_all (\<lambda>t. length t = n) ts"

text \<open>The sequences that the loop of \<open>q_retrace\<close> reads.\<close>

record retrace_seqs =
  rho_bar :: "tensor list"
  reward_seq :: "tensor list"
  done_seq :: "tensor list"
  q_is :: "tensor list"
  value_sequence :: "tensor list"

text \<open>
  The loop \<open>for i in range(n_steps - 1, -1, -1)\<close>, over the list of the indices it
  visits, on the state \<open>(qret, qrets)\<close>:
  \<open>qret = reward_seq[i] + gamma * qret * (1.0 - done_seq[i]); qrets.append(qret);
  qret = (rho_bar[i] * (qret - q_is[i])) + value_sequence[i]\<close>.
\<close>

fun retrace_loop ::
  "retrace_seqs \<Rightarrow> nat \<Rightarrow> real \<Rightarrow> nat list \<Rightarrow> tensor \<times> tensor list \<Rightarrow> error + tensor \<times> tensor list" where
  "retrace_loop s n_envs0 gamma [] st = Inr st"
| "retrace_loop s n_envs0 gamma (i # is) st =
     (case st of (qret, qrets) \<Rightarrow>
        if \<not> check_shape [qret, done_seq s ! i, reward_seq s ! i, rho_bar s ! i, q_is s ! i,
                            value_sequence s ! i] n_envs0
        then Inl AssertionError
        else
          let qret1 = t_add (reward_seq s ! i) (t_mul (t_scale gamma qret) (t_one_minus (done_seq s ! i)));
              qrets1 = qrets @ [qret1];
              qret2 = t_add (t_mul (rho_bar s ! i) (t_sub qret1 (q_is s ! i))) (value_sequence s ! i)
          in retrace_loop s n_envs0 gamma is (qret2, qrets1))"

text \<open>
  \<open>q_retrace\<close>. \<open>value_sequence\<close> has \<open>n_steps + 1\<close> entries, so
  \<open>value_sequence[-1]\<close> exists; \<open>qrets[::-1]\<close> is \<open>rev\<close>.
\<close>

definition q_retrace ::
  "tensor \<Rightarrow> tensor \<Rightarrow> tensor \<Rightarrow> tensor \<Rightarrow> tensor \<Rightarrow> nat \<Rightarrow> nat \<Rightarrow> real \<Rightarrow> error + tensor" where
  "q_retrace rewards0 dones0 q_i values rho_i n_envs0 n_steps0 gamma =
     bind (batch_to_seq (t_minimum 1 rho_i) n_envs0 n_steps0) (\<lambda>rb.
     bind (batch_to_seq rewards0 n_envs0 n_steps0) (\<lambda>rs.
     bind (batch_to_seq dones0 n_envs0 n_steps0) (\<lambda>ds.
     bind (batch_to_seq q_i n_envs0 n_steps0) (\<lambda>qs.
     bind (batch_to_seq values n_envs0 (n_steps0 + 1)) (\<lambda>vs.
       let final_value = last vs;
           s = \<lparr> rho_bar = rb, reward_seq = rs, done_seq = ds, q_is = qs, value_sequence = vs \<rparr>
       in
       bind (retrace_loop s n_envs0 gamma (rev [0..<n_steps0]) (final_value, [])) (\<lambda>st.
         seq_to_batch (rev (snd st))))))))"

subsection \<open>The recursion as the specification words it\<close>

text \<open>
  For one environment, with its rewards, termination flags, Q-values of the taken
  actions, state values and importance weights as functions of the step:
  \<open>carry_spec\<close> at \<open>t\<close> is the carry that iteration \<open>t\<close> leaves for the earlier
  one; it starts, at \<open>t = n\<close>, as the bootstrap value past the end of the window,
  and at \<open>t < n\<close> is \<open>value_t + min(1, rho_t) * (raw_target_t - Q_taken_t)\<close>, where
  \<open>raw_target_t = reward_t + gamma * (1 - done_t) * carry\<close> reads the carry left by
  iteration \<open>t + 1\<close>.
\<close>

record one_env =
  reward :: "nat \<Rightarrow> real"
  done_flag :: "nat \<Rightarrow> real"
  q_taken :: "nat \<Rightarrow> real"
  state_value :: "nat \<Rightarrow> real"
  rho :: "nat \<Rightarrow> real"
  bootstrap :: real

function carry_spec :: "real \<Rightarrow> nat \<Rightarrow> one_env \<Rightarrow> nat \<Rightarrow> real" where
  "carry_spec gamma n w t =
     (if n \<le> t then bootstrap w
      else state_value w t
             + min 1 (rho w t)
               * ((reward w t + gamma * (1 - done_flag w t) * carry_spec gamma n w (Suc t))
                  - q_taken w t))"
  by pat_completeness auto
termination
  by (relation "measure (\<lambda>(gamma, n, w, t). n - t)") auto

text \<open>The equation of \<open>carry_spec\<close> is unfolded by hand, one step at a time.\<close>

declare carry_spec.simps [simp del]

definition raw_target_spec :: "real \<Rightarrow> nat \<Rightarrow> one_env \<Rightarrow> nat \<Rightarrow> real" where
  "raw_target_spec gamma n w t =
     reward w t + gamma * (1 - done_flag w t) * carry_spec gamma n w (Suc t)"

text \<open>Environment \<open>e\<close> of the batches that \<open>q_retrace\<close> receives.\<close>

definition env_of :: "tensor \<Rightarrow> tensor \<Rightarrow> tensor \<Rightarrow> tensor \<Rightarrow> tensor \<Rightarrow> nat \<Rightarrow> nat \<Rightarrow> one_env" where
  "env_of rewards0 dones0 q_i values rho_i n_steps0 e =
     \<lparr> reward = (\<lambda>t. rewards0 ! (e * n_steps0 + t)),
       done_flag = (\<lambda>t. dones0 ! (e * n_steps0 + t)),
       q_taken = (\<lambda>t. q_i ! (e * n_steps0 + t)),
       state_value = (\<lambda>t. values ! (e * (n_steps0 + 1) + t)),
       rho = (\<lambda>t. rho_i ! (e * n_steps0 + t)),
       bootstrap = values ! (e * (n_steps0 + 1) + n_steps0) \<rparr>"

section \<open>The trust-region projection (\<open>Model.__init__\<close> of baselines/acer/acer_simple.py)\<close>

text \<open>
  A float32 tensor of shape \<open>[n_batch, n_act]\<close> is a list of \<open>n_batch\<close> rows, one
  per sample, of \<open>n_act\<close> reals, and one of shape \<open>[n_batch]\<close> a list of reals;
  the arithmetic is exact. The block under \<open>if trust_region:\<close> works on three
  tensors of the shape \<open>[n_envs * n_steps, n_act]\<close>: \<open>distribution_f\<close>, the action
  probabilities of the policy, \<open>f_polyak\<close>, those of the averaged policy, and
  \<open>grad\<close>, the gradient that \<open>tf.gradients\<close> gives with respect to
  \<open>distribution_f\<close>. (\<open>tf.gradients\<close> returns a list of one tensor, which the
  arithmetic converts to a tensor with one more leading axis of length 1; that axis
  is left out here.)
\<close>

type_synonym matrix = "real list list"

definition eps :: real where
  "eps = 1 / 1000000"

text \<open>Arithmetic element by element on two tensors of one shape, and \<open>tf.square\<close>.\<close>

definition m_mul :: "matrix \<Rightarrow> matrix \<Rightarrow> matrix" where
  "m_mul a b = map2 (map2 (*)) a b"

definition m_sub :: "matrix \<Rightarrow> matrix \<Rightarrow> matrix" where
  "m_sub a b = map2 (map2 (-)) a b"

definition m_square :: "matrix \<Rightarrow> matrix" where
  "m_square a = map (map (\<lambda>x. x * x)) a"

text \<open>\<open>tf.reduce_sum(m, axis=-1)\<close>: the sum of every row.\<close>

definition reduce_sum_last :: "matrix \<Rightarrow> real list" where
  "reduce_sum_last m = map sum_list m"

text \<open>\<open>kl_grad = - f_polyak / (distribution_f + eps)\<close>.\<close>

definition kl_gradient :: "matrix \<Rightarrow> matrix \<Rightarrow> matrix" where
  "kl_gradient f_polyak distribution_f =
     map2 (map2 (\<lambda>p f. - p / (f + eps))) f_polyak distribution_f"

text \<open>
  \<open>adj = tf.maximum(0.0, (tf.reduce_sum(kl_grad * grad, axis=-1) - delta) /
  (tf.reduce_sum(tf.square(kl_grad), axis=-1) + eps))\<close>, of shape \<open>[n_batch]\<close>.
\<close>

definition adjustment :: "matrix \<Rightarrow> matrix \<Rightarrow> real \<Rightarrow> real list" where
  "adjustment kl_grad grad delta =
     map (max 0)
       (map2 (/) (map (\<lambda>d. d - delta) (reduce_sum_last (m_mul kl_grad grad)))
                 (map (\<lambda>q. q + eps) (reduce_sum_last (m_square kl_grad))))"

text \<open>
  \<open>tf.reshape(adj, [n, 1])\<close>, a \<open>ValueError\<close> unless \<open>adj\<close> has \<open>n\<close> elements, and
  the product of the column with a tensor of \<open>n\<close> rows, in which TensorFlow repeats
  the one entry of each row of the column along the row of the tensor.
\<close>

definition reshape_column :: "nat \<Rightarrow> real list \<Rightarrow> error + matrix" where
  "reshape_column n v = (if length v \<noteq> n then Inl ValueError else Inr (map (\<lambda>a. [a]) v))"

definition times_column :: "matrix \<Rightarrow> matrix \<Rightarrow> matrix" where
  "times_column col m = map2 (\<lambda>c row. map (\<lambda>x. hd c * x) row) col m"

text \<open>
  The block up to the projected gradient:
  \<open>grad = grad - tf.reshape(adj, [n_envs * n_steps, 1]) * kl_grad\<close>.
\<close>

definition trust_region_gradient ::
  "matrix \<Rightarrow> matrix \<Rightarrow> matrix \<Rightarrow> real \<Rightarrow> nat \<Rightarrow> nat \<Rightarrow> error + matrix" where
  "trust_region_gradient f_polyak distribution_f grad delta n_envs0 n_steps0 =
     (let kl_grad = kl_gradient f_polyak distribution_f;
          adj = adjustment kl_grad grad delta
      in bind (reshape_column (n_envs0 * n_steps0) adj) (\<lambda>col.
           Inr (m_sub grad (times_column col kl_grad))))"

text \<open>A tensor of shape \<open>[n, a]\<close>.\<close>

definition has_shape :: "nat \<Rightarrow> nat \<Rightarrow> matrix \<Rightarrow> bool" where
  "has_shape n a m = (length m = n \<and> list_all (\<lambda>row. length row = a) m)"

section \<open>\<open>get\<close> on an explicit store\<close>

text \<open>
  Which arrays a call writes and which it returns cannot be said of values; in this
  section the arrays are objects of a store, named by addresses, and \<open>take\<close>,
  \<open>decode\<close> and \<open>get\<close> are programs that allocate, read and write objects. An
  array object has the shape, the \<open>dtype\<close> and the elements, in row-major order, of
  a numpy array; an element is \<open>None\<close> while it is the uninitialised memory of
  \<open>np.empty\<close>, which reads, copies and arithmetic pass on as it is. A new object
  takes the first unused address, so that an address below the length of the store
  names an object that existed before.
\<close>

datatype dtype = Uint8 | Int32 | Float32 | Boolean

datatype elem = U8 pixel | I32 "32 word" | F32 real | Flag bool

record array_obj =
  a_shape :: "nat list"
  a_dtype :: dtype
  a_data :: "elem option list"

type_synonym addr = nat

text \<open>The \<open>Buffer\<close> object: its fields, the six arrays by reference.\<close>

record buffer_obj =
  o_n_env :: nat
  o_n_steps :: nat
  o_height :: nat
  o_width :: nat
  o_n_channels :: nat
  o_n_stack :: nat
  o_n_batch :: nat
  o_size :: nat
  o_enc_obs :: "addr option"
  o_actions :: "addr option"
  o_rewards :: "addr option"
  o_mus :: "addr option"
  o_dones :: "addr option"
  o_masks :: "addr option"
  o_next_idx :: nat
  o_num_in_buffer :: nat

record world =
  self_obj :: buffer_obj
  heap :: "array_obj list"

text \<open>
  A program maps the state before to a result, \<open>Inl\<close> an exception, and the state
  after; an exception keeps the state that the statements before it left.
\<close>

type_synonym 'a prog = "world \<Rightarrow> (error + 'a) \<times> world"

definition ret :: "'a \<Rightarrow> 'a prog" where
  "ret x = (\<lambda>s. (Inr x, s))"

definition raise :: "error \<Rightarrow> 'a prog" where
  "raise e = (\<lambda>s. (Inl e, s))"

definition seq :: "'a prog \<Rightarrow> ('a \<Rightarrow> 'b prog) \<Rightarrow> 'b prog" where
  "seq p f = (\<lambda>s. case p s of (Inl e, s') \<Rightarrow> (Inl e, s') | (Inr x, s') \<Rightarrow> f x s')"

text \<open>\<open>for i in is: body(i)\<close>.\<close>

fun for_each :: "nat list \<Rightarrow> (nat \<Rightarrow> unit prog) \<Rightarrow> unit prog" where
  "for_each [] body = ret ()"
| "for_each (i # rest) body = seq (body i) (\<lambda>_. for_each rest body)"

subsection \<open>The statements on objects\<close>

definition get_self :: "buffer_obj prog" where
  "get_self = (\<lambda>s. (Inr (self_obj s), s))"

text \<open>
  \<open>np.empty\<close> and \<open>np.zeros\<close> (\<open>alloc\<close>, every element \<open>init\<close>) and the operations
  that return a new array with given elements (\<open>alloc_with\<close>).
\<close>

definition alloc_with :: "nat list \<Rightarrow> dtype \<Rightarrow> elem option list \<Rightarrow> addr prog" where
  "alloc_with shp dt d =
     (\<lambda>s. (Inr (length (heap s)),
            s\<lparr> heap := heap s @ [\<lparr> a_shape = shp, a_dtype = dt, a_data = d \<rparr>] \<rparr>))"

definition alloc :: "nat list \<Rightarrow> dtype \<Rightarrow> elem option \<Rightarrow> addr prog" where
  "alloc shp dt init = alloc_with shp dt (replicate (prod_list shp) init)"

text \<open>
  Reading the object behind a reference. A reference of the program always names
  an object; \<open>InvalidReference\<close> marks an address that names none.
\<close>

definition lookup :: "addr \<Rightarrow> array_obj prog" where
  "lookup a = (\<lambda>s. if a < length (heap s) then (Inr (heap s ! a), s) else (Inl InvalidReference, s))"

text \<open>The value of an element as a number, and the cast of numpy on a store into an
  array of another \<open>dtype\<close>.\<close>

definition to_real :: "elem \<Rightarrow> real" where
  "to_real e = (case e of U8 p \<Rightarrow> real (unat p) | I32 w \<Rightarrow> real_of_int (sint w)
                | F32 r \<Rightarrow> r | Flag b \<Rightarrow> of_bool b)"

definition cast :: "dtype \<Rightarrow> elem \<Rightarrow> elem" where
  "cast dt e = (case dt of
       Uint8 \<Rightarrow> (case e of U8 p \<Rightarrow> U8 p | _ \<Rightarrow> U8 (of_int \<lfloor>to_real e\<rfloor>))
     | Int32 \<Rightarrow> (case e of I32 w \<Rightarrow> I32 w | _ \<Rightarrow> I32 (of_int \<lfloor>to_real e\<rfloor>))
     | Float32 \<Rightarrow> F32 (to_real e)
     | Boolean \<Rightarrow> Flag (to_real e \<noteq> 0))"

text \<open>
  The one statement that changes an object: the elements \<open>vals\<close> are stored, cast
  to the \<open>dtype\<close> of the object at \<open>a\<close>, at the positions from \<open>off\<close> on. Every
  assignment to a slice in \<open>take\<close> and \<open>decode\<close> writes such a run of consecutive
  positions.
\<close>

definition write_block :: "addr \<Rightarrow> nat \<Rightarrow> elem option list \<Rightarrow> unit prog" where
  "write_block a off vals =
     (\<lambda>s. if length (heap s) \<le> a then (Inl InvalidReference, s)
          else
            let obj = heap s ! a in
            if length (a_data obj) < off + length vals then (Inl ValueError, s)
            else (Inr (),
                  s\<lparr> heap := (heap s)[a := obj\<lparr> a_data :=
                        take off (a_data obj)
                        @ map (map_option (cast (a_dtype obj))) vals
                        @ drop (off + length vals) (a_data obj) \<rparr>] \<rparr>))"

subsection \<open>\<open>take\<close>\<close>

text \<open>
  \<open>arr[s, e]\<close> on an array object: the elements of entry \<open>e\<close> of entry \<open>s\<close>, an
  \<open>IndexError\<close> when the array has fewer than two axes or an index is out of range.
\<close>

definition index2 :: "array_obj \<Rightarrow> nat \<Rightarrow> nat \<Rightarrow> error + elem option list" where
  "index2 arr s e =
     (case a_shape arr of
        sz # n # sh \<Rightarrow>
          if sz \<le> s \<or> n \<le> e then Inl IndexError
          else Inr (take (prod_list sh) (drop ((s * n + e) * prod_list sh) (a_data arr)))
      | _ \<Rightarrow> Inl IndexError)"

definition lift :: "error + 'a \<Rightarrow> 'a prog" where
  "lift r = (\<lambda>s. (r, s))"

text \<open>
  \<open>take\<close>: \<open>out = np.empty([n_env] + list(arr.shape[2:]), dtype=arr.dtype)\<close>, then
  \<open>out[i] = arr[idx[i], envx[i]]\<close> for every environment, then \<open>return out\<close>.
\<close>

definition take_h :: "addr option \<Rightarrow> nat list \<Rightarrow> nat list \<Rightarrow> addr prog" where
  "take_h arr_ref idx envx =
     seq get_self (\<lambda>b.
       case arr_ref of
         None \<Rightarrow> raise AttributeError
       | Some a \<Rightarrow>
           seq (lookup a) (\<lambda>arr.
           seq (alloc (o_n_env b # drop 2 (a_shape arr)) (a_dtype arr) None) (\<lambda>out.
           seq (for_each [0..<o_n_env b] (\<lambda>i.
                  seq (lookup a) (\<lambda>arr.
                  seq (lift (index2 arr (idx ! i) (envx ! i))) (\<lambda>cell.
                    write_block out (i * prod_list (drop 2 (a_shape arr))) cell)))) (\<lambda>_.
             ret out))))"

subsection \<open>\<open>decode\<close>\<close>

text \<open>
  Arithmetic on elements: \<open>1.0 - d\<close> and the product, both float32. Inside
  \<open>decode\<close> an array that no statement writes, a view or the result of an
  expression, is the nested list of its elements: \<open>x_var\<close> a row per step, of a
  frame per environment, and the keep mask a row per step, of a value per
  environment.
\<close>

definition one_minus :: "elem option \<Rightarrow> elem option" where
  "one_minus d = map_option (\<lambda>e. F32 (1 - to_real e)) d"

definition times :: "elem option \<Rightarrow> elem option \<Rightarrow> elem option" where
  "times x y = (case (x, y) of (Some a, Some c) \<Rightarrow> Some (F32 (to_real a * to_real c)) | _ \<Rightarrow> None)"

definition reshape_h :: "nat \<Rightarrow> nat \<Rightarrow> nat \<Rightarrow> 'a list \<Rightarrow> error + 'a list list list" where
  "reshape_h n t m flat =
     (if length flat \<noteq> n * t * m then Inl ValueError
      else Inr (map (rows t m) (rows n (t * m) flat)))"

text \<open>
  The loop \<open>for i in range(n_stack)\<close> of \<open>decode\<close>, on the arrays \<open>obs\<close> and
  \<open>y_var\<close> at the addresses \<open>o\<close> and \<open>y\<close>: in pass \<open>i\<close> the rows \<open>i:\<close> of entry
  \<open>-(i + 1)\<close> of \<open>obs\<close> receive \<open>x_var\<close>, and \<open>x_var\<close> becomes \<open>x_var[:-1]\<close> times
  \<open>y_var\<close>, which by now is the view \<open>[i:]\<close> of the array at \<open>y\<close>.
\<close>

fun stack_loop :: "buffer_obj \<Rightarrow> addr \<Rightarrow> addr \<Rightarrow> nat list \<Rightarrow> elem option list list list \<Rightarrow> unit prog" where
  "stack_loop b o_ref y_ref [] x_var = ret ()"
| "stack_loop b o_ref y_ref (i # rest) x_var =
     (let npix = o_height b * o_width b * o_n_channels b;
          t = o_n_steps b + o_n_stack b
      in
      seq (write_block o_ref (((o_n_stack b - (i + 1)) * t + i) * (o_n_env b * npix))
             (concat (concat x_var))) (\<lambda>_.
      seq (lookup y_ref) (\<lambda>y_obj.
        let y_var = drop i (rows (t - 1) (o_n_env b) (a_data y_obj)) in
        stack_loop b o_ref y_ref rest
          (map2 (map2 (\<lambda>frame m. map (\<lambda>p. times p m) frame)) (butlast x_var) y_var))))"

text \<open>
  \<open>decode\<close> on the arrays at \<open>enc_ref\<close> and \<open>dones_ref\<close>. \<open>y_var\<close> and \<open>obs\<close> are
  allocated; \<open>y_var[3:] = ...\<close> needs as many rows on the right as the slice has,
  or one row, which is repeated, and is a \<open>ValueError\<close> otherwise; the result is the
  new array that \<open>np.reshape\<close> makes of the transposed view of \<open>obs[:, 3:]\<close>, with
  the elements in the order of the axes environment, step, height, width, stacked
  frame, channel.
\<close>

definition decode_h :: "addr \<Rightarrow> addr \<Rightarrow> addr prog" where
  "decode_h enc_ref dones_ref =
     seq get_self (\<lambda>b.
       let n_stack0 = o_n_stack b; n_env0 = o_n_env b; n_steps0 = o_n_steps b;
           h = o_height b; w = o_width b; c = o_n_channels b;
           npix = h * w * c;
           t = n_steps0 + n_stack0;
           l = t - 1
       in
       seq (alloc [l, n_env0, 1, 1, 1] Float32 None) (\<lambda>y_ref.
       seq (alloc [n_stack0, t, n_env0, h, w, c] Uint8 (Some (U8 0))) (\<lambda>o_ref.
       seq (lookup enc_ref) (\<lambda>enc.
       seq (lift (reshape_h n_env0 t npix (a_data enc))) (\<lambda>x.
       seq (lookup dones_ref) (\<lambda>dn.
       seq (lift (reshape_h n_env0 n_steps0 1 (map one_minus (a_data dn)))) (\<lambda>k.
         let src = map concat (swapaxes n_steps0 k) in
         seq (if n_steps0 = l - 3 then write_block y_ref (min 3 l * n_env0) (concat src)
              else if n_steps0 = 1
                   then write_block y_ref (min 3 l * n_env0) (concat (replicate (l - 3) (src ! 0)))
                   else raise ValueError) (\<lambda>_.
         seq (write_block y_ref 0 (replicate (min 3 l * n_env0) (Some (F32 1)))) (\<lambda>_.
         seq (stack_loop b o_ref y_ref [0..<n_stack0] (swapaxes t x)) (\<lambda>_.
         seq (lookup o_ref) (\<lambda>obs.
           if n_stack0 * (t - 3) * n_env0 * npix \<noteq> n_env0 * (n_steps0 + 1) * npix * n_stack0
           then raise ValueError
           else alloc_with [n_env0, n_steps0 + 1, h, w, n_stack0 * c] Uint8
                  (concat (map (\<lambda>e. concat (map (\<lambda>k. concat (map (\<lambda>p. concat (map (\<lambda>j.
                       take c (drop (((((j * t + (k + 3)) * n_env0 + e) * (h * w)) + p) * c) (a_data obs)))
                     [0..<n_stack0])) [0..<h * w])) [0..<n_steps0 + 1])) [0..<n_env0])))))))))))))"

subsection \<open>\<open>get\<close>\<close>

text \<open>
  \<open>get\<close>, the random draw an argument as before. It returns the addresses of the
  six arrays of the sample.
\<close>

definition get_h :: "(nat \<Rightarrow> nat) \<Rightarrow> (addr \<times> addr \<times> addr \<times> addr \<times> addr \<times> addr) prog" where
  "get_h rnd =
     seq get_self (\<lambda>b.
       if \<not> 0 < o_num_in_buffer b then raise AssertionError
       else
         let idx = map (\<lambda>i. rnd i mod o_num_in_buffer b) [0..<o_n_env b];
             envx = [0..<o_n_env b]
         in
         seq (seq get_self (\<lambda>b. take_h (o_dones b) idx envx)) (\<lambda>dn.
         seq (seq get_self (\<lambda>b. take_h (o_enc_obs b) idx envx)) (\<lambda>eo.
         seq (decode_h eo dn) (\<lambda>obs.
         seq (seq get_self (\<lambda>b. take_h (o_actions b) idx envx)) (\<lambda>ac.
         seq (seq get_self (\<lambda>b. take_h (o_rewards b) idx envx)) (\<lambda>rw.
         seq (seq get_self (\<lambda>b. take_h (o_mus b) idx envx)) (\<lambda>mu.
         seq (seq get_self (\<lambda>b. take_h (o_masks b) idx envx)) (\<lambda>mk.
           ret (obs, ac, rw, mu, dn, mk)))))))))"

subsection \<open>Vocabulary of the frame property\<close>

text \<open>
  \<open>extends n s s'\<close>: from the state \<open>s\<close> to the state \<open>s'\<close> the \<open>Buffer\<close> object
  and the first \<open>n\<close> objects of the store are unchanged, and no object is removed.
  \<open>frame_ok n p\<close>: from every state with at least \<open>n\<close> objects the program \<open>p\<close>,
  whether it returns or raises, ends in such a state. \<open>returns_new n A p R\<close>: so
  does \<open>p\<close> from a state in which moreover the addresses \<open>A\<close> name objects, and
  when it returns \<open>x\<close>, every address in \<open>R x\<close> is at least \<open>n\<close> and names an
  object of the state it ends in.
\<close>

definition extends :: "nat \<Rightarrow> world \<Rightarrow> world \<Rightarrow> bool" where
  "extends n s s' =
     (self_obj s' = self_obj s \<and> length (heap s) \<le> length (heap s')
      \<and> take n (heap s') = take n (heap s))"

definition frame_ok :: "nat \<Rightarrow> 'a prog \<Rightarrow> bool" where
  "frame_ok n p = (\<forall>s. n \<le> length (heap s) \<longrightarrow> extends n s (snd (p s)))"

definition returns_new :: "nat \<Rightarrow> addr set \<Rightarrow> 'a prog \<Rightarrow> ('a \<Rightarrow> addr set) \<Rightarrow> bool" where
  "returns_new n A p R =
     (\<forall>s. n \<le> length (heap s) \<and> (\<forall>a\<in>A. a < length (heap s)) \<longrightarrow>
        (case p s of (r, s') \<Rightarrow>
           extends n s s' \<and> (\<forall>x. r = Inr x \<longrightarrow> (\<forall>a\<in>R x. n \<le> a \<and> a < length (heap s')))))"

text \<open>
  The state of the example: the two-slot buffer after \<open>put\<close> of the first example
  batch, its six arrays at the addresses 0 to 5. The second slot of each array is
  uninitialised.
\<close>

definition world_2a :: world where
  "world_2a =
     \<lparr> self_obj = \<lparr> o_n_env = 1, o_n_steps = 2, o_height = 1, o_width = 1, o_n_channels = 1,
                    o_n_stack = 4, o_n_batch = 2, o_size = 2,
                    o_enc_obs = Some 0, o_actions = Some 1, o_rewards = Some 2,
                    o_mus = Some 3, o_dones = Some 4, o_masks = Some 5,
                    o_next_idx = 1, o_num_in_buffer = 1 \<rparr>,
       heap =
         [\<lparr> a_shape = [2, 1, 6, 1, 1, 1], a_dtype = Uint8,
            a_data = map (Some \<circ> U8) [1, 2, 3, 4, 5, 6] @ replicate 6 None \<rparr>,
          \<lparr> a_shape = [2, 1, 2], a_dtype = Int32,
            a_data = map (Some \<circ> I32) [0, 1] @ replicate 2 None \<rparr>,
          \<lparr> a_shape = [2, 1, 2], a_dtype = Float32,
            a_data = map (Some \<circ> F32) [0, 1] @ replicate 2 None \<rparr>,
          \<lparr> a_shape = [2, 1, 2, 2], a_dtype = Float32,
            a_data = map (Some \<circ> F32) [1/2, 1/2, 1/4, 3/4] @ replicate 4 None \<rparr>,
          \<lparr> a_shape = [2, 1, 2], a_dtype = Boolean,
            a_data = map (Some \<circ> Flag) [False, True] @ replicate 2 None \<rparr>,
          \<lparr> a_shape = [2, 1, 3], a_dtype = Boolean,
            a_data = map (Some \<circ> Flag) [False, False, True] @ replicate 3 None \<rparr>] \<rparr>"

section \<open>Properties of the replay buffer\<close>

subsection \<open>Broadcasting an array of the slot's own shape\<close>

lemma concat_blocks:
  "length d = t * m \<Longrightarrow> concat (map (\<lambda>i. take m (drop (i * m) d)) [0..<t]) = d"
proof (induction t arbitrary: d rule: nat.induct)
  case zero
  then show ?case by simp
next
  case (Suc t)
  have "length (take (t * m) d) = t * m" using Suc.prems by simp
  then have "concat (map (\<lambda>i. take m (drop (i * m) (take (t * m) d))) [0..<t]) = take (t * m) d"
    by (rule Suc.IH)
  moreover have "take m (drop (i * m) (take (t * m) d)) = take m (drop (i * m) d)" if "i < t" for i
  proof -
    have "i * m + m \<le> t * m" using that
      by (metis Suc_leI add.commute mult_Suc mult_le_mono1)
    then show ?thesis by (simp add: drop_take min_def)
  qed
  then have "map (\<lambda>i. take m (drop (i * m) (take (t * m) d))) [0..<t]
             = map (\<lambda>i. take m (drop (i * m) d)) [0..<t]"
    by simp
  ultimately have "concat (map (\<lambda>i. take m (drop (i * m) d)) [0..<t]) = take (t * m) d"
    by simp
  moreover have "take m (drop (t * m) d) = drop (t * m) d" using Suc.prems by simp
  ultimately show ?case by simp
qed

lemma bcast_data_same: "length d = prod_list shp \<Longrightarrow> bcast_data shp shp d = d"
proof (induction shp arbitrary: d)
  case Nil
  then show ?case by simp
next
  case (Cons t ts)
  have "bcast_data ts ts (take (prod_list ts) (drop (i * prod_list ts) d)) = take (prod_list ts) (drop (i * prod_list ts) d)"
    if "i < t" for i
  proof (rule Cons.IH)
    have "i * prod_list ts + prod_list ts \<le> t * prod_list ts" using that
      by (metis Suc_leI add.commute mult_Suc mult_le_mono1)
    then show "length (take (prod_list ts) (drop (i * prod_list ts) d)) = prod_list ts"
      using Cons.prems by simp
  qed
  then have m: "map (\<lambda>i. bcast_data ts ts (take (prod_list ts) (drop (i * prod_list ts) d))) [0..<t]
             = map (\<lambda>i. take (prod_list ts) (drop (i * prod_list ts) d)) [0..<t]"
    by simp
  have c: "concat (map (\<lambda>i. take (prod_list ts) (drop (i * prod_list ts) d)) [0..<t]) = d"
    by (rule concat_blocks) (use Cons.prems in simp)
  show ?case by (simp only: bcast_data.simps simp_thms if_True m c)
qed

lemma strip_ones_same: "strip_ones (length ss) ss = ss"
  by (cases ss) simp_all

lemma broadcastable_same: "broadcastable shp shp"
  by (simp add: broadcastable_def list_all2_same)

lemma broadcast_to_same: "array_ok v \<Longrightarrow> shape v = shp \<Longrightarrow> broadcast_to shp v = Some (data v)"
  by (auto simp: broadcast_to_def Let_def strip_ones_same broadcastable_same bcast_data_same array_ok_def)

lemma broadcast_to_Some_iff:
  "(\<exists>d. broadcast_to shp v = Some d) \<longleftrightarrow> broadcast_to shp v \<noteq> None"
  by auto

subsection \<open>The ring of slots\<close>

lemma ring_update:
  assumes s: "0 < s" and len: "length (slots st) = s"
    and shp: "slot_shape st = shape (f (hd (hs @ [x])))"
    and last: "\<forall>i<length hs. length hs - i \<le> s \<longrightarrow> holds (slot_shape st) (f (hs ! i)) (slots st ! (i mod s))"
    and filled: "\<forall>j<min (length hs) s. \<exists>i<length hs. holds (slot_shape st) (f (hs ! i)) (slots st ! j)"
    and bc: "broadcast_to (slot_shape st) (f x) = Some d"
  shows "ring s (hs @ [x]) f (Some (st\<lparr> slots := (slots st)[length hs mod s := Some d] \<rparr>))"
proof -
  let ?n = "length hs"
  let ?shp = "slot_shape st"
  let ?slots = "(slots st)[?n mod s := Some d]"
  have pos: "?n mod s < length (slots st)" using s len by simp
  have new: "holds ?shp (f x) (Some d)" using bc by (simp add: holds_def)
  have a: "holds ?shp (f ((hs @ [x]) ! i)) (?slots ! (i mod s))"
    if "i < Suc ?n" and "Suc ?n - i \<le> s" for i
  proof (cases "i = ?n")
    case True
    then show ?thesis using pos new by simp
  next
    case False
    then have lt: "i < ?n" using that by simp
    have "i mod s \<noteq> ?n mod s"
    proof
      assume eq: "i mod s = ?n mod s"
      have "(?n - i) mod s = 0"
        using eq lt by (metis less_imp_le_nat mod_eq_dvd_iff_nat dvd_imp_mod_0)
      moreover have "0 < ?n - i" "?n - i < s" using lt that by simp_all
      ultimately show False by simp
    qed
    moreover have "holds ?shp (f (hs ! i)) (slots st ! (i mod s))"
      using last lt that by simp
    ultimately show ?thesis using lt by (simp add: nth_append)
  qed
  have b: "\<exists>i<Suc ?n. holds ?shp (f ((hs @ [x]) ! i)) (?slots ! j)"
    if "j < min (Suc ?n) s" for j
  proof (cases "j = ?n mod s")
    case True
    then have "holds ?shp (f ((hs @ [x]) ! ?n)) (?slots ! j)" using pos new by simp
    then show ?thesis by blast
  next
    case False
    have "j < min ?n s"
    proof (rule ccontr)
      assume "\<not> j < min ?n s"
      then have "j = ?n" "?n < s" using that by auto
      then show False using False by simp
    qed
    then obtain i where "i < ?n" "holds ?shp (f (hs ! i)) (slots st ! j)"
      using filled by blast
    then have "i < Suc ?n" "holds ?shp (f ((hs @ [x]) ! i)) (?slots ! j)"
      using False by (simp_all add: nth_append)
    then show ?thesis by blast
  qed
  show ?thesis
    unfolding ring_def using a b len shp by simp
qed

lemma ring_store:
  assumes s: "0 < s" and r: "ring s hs f arr"
    and st: "store_slot (if hs = [] then Some (empty_storage s (f x)) else arr) (length hs mod s) (f x) = Inr arr'"
  shows "ring s (hs @ [x]) f arr'"
proof (cases "hs = []")
  case True
  let ?st = "empty_storage s (f x)"
  from st True obtain d where d: "broadcast_to (slot_shape ?st) (f x) = Some d"
      and arr': "arr' = Some (?st\<lparr> slots := (slots ?st)[length ([]::'a list) mod s := Some d] \<rparr>)"
    by (auto simp: store_slot_def split: if_splits option.splits)
  have "ring s ([] @ [x]) f (Some (?st\<lparr> slots := (slots ?st)[length ([]::'a list) mod s := Some d] \<rparr>))"
    by (rule ring_update) (use s d in \<open>simp_all add: empty_storage_def\<close>)
  then show ?thesis using True arr' by simp
next
  case False
  then obtain st0 where sl: "arr = Some st0" "slot_shape st0 = shape (f (hd hs))" "length (slots st0) = s"
     "\<forall>i<length hs. length hs - i \<le> s \<longrightarrow> holds (slot_shape st0) (f (hs ! i)) (slots st0 ! (i mod s))"
     "\<forall>j<min (length hs) s. \<exists>i<length hs. holds (slot_shape st0) (f (hs ! i)) (slots st0 ! j)"
    using r unfolding ring_def by auto
  from st False sl(1) obtain d where d: "broadcast_to (slot_shape st0) (f x) = Some d"
      and arr': "arr' = Some (st0\<lparr> slots := (slots st0)[length hs mod s := Some d] \<rparr>)"
    by (auto simp: store_slot_def split: if_splits option.splits)
  have "ring s (hs @ [x]) f (Some (st0\<lparr> slots := (slots st0)[length hs mod s := Some d] \<rparr>))"
    by (rule ring_update) (use s sl d False in simp_all)
  then show ?thesis using arr' by simp
qed

lemma ring_store_ok:
  assumes s: "0 < s" and r: "ring s hs f arr"
    and ok: "array_ok (f x)" and shp: "shape (f x) = shape (f (hd (hs @ [x])))"
  shows "\<exists>arr'. store_slot (if hs = [] then Some (empty_storage s (f x)) else arr) (length hs mod s) (f x) = Inr arr'"
proof (cases "hs = []")
  case True
  have "broadcast_to (shape (f x)) (f x) = Some (data (f x))"
    using ok by (simp add: broadcast_to_same)
  then show ?thesis using True s by (simp add: store_slot_def empty_storage_def)
next
  case False
  then obtain st0 where sl: "arr = Some st0" "slot_shape st0 = shape (f (hd hs))" "length (slots st0) = s"
    using r unfolding ring_def by auto
  have "broadcast_to (slot_shape st0) (f x) = Some (data (f x))"
    using ok shp False sl(2) by (simp add: broadcast_to_same)
  moreover have "length hs mod s < s" using s by simp
  ultimately show ?thesis using False sl by (simp add: store_slot_def)
qed

lemma ring_rotate:
  assumes s: "0 < s" and r: "ring s hs f arr" and n: "s \<le> length hs"
    and same: "\<forall>x\<in>set hs. array_ok (f x) \<and> shape (f x) = shape (f (hd hs))"
  shows "\<exists>st. arr = Some st \<and> slot_shape st = shape (f (hd hs)) \<and> length (slots st) = s \<and>
           rotate (length hs mod s) (slots st) = map (Some \<circ> data \<circ> f) (drop (length hs - s) hs)"
proof -
  have ne: "hs \<noteq> []" using s n by auto
  then obtain st where sl: "arr = Some st" "slot_shape st = shape (f (hd hs))" "length (slots st) = s"
     "\<forall>i<length hs. length hs - i \<le> s \<longrightarrow> holds (slot_shape st) (f (hs ! i)) (slots st ! (i mod s))"
    using r unfolding ring_def by auto
  have "rotate (length hs mod s) (slots st) = map (Some \<circ> data \<circ> f) (drop (length hs - s) hs)"
  proof (rule nth_equalityI)
    show "length (rotate (length hs mod s) (slots st)) = length (map (Some \<circ> data \<circ> f) (drop (length hs - s) hs))"
      using sl n by simp
  next
    fix m assume "m < length (rotate (length hs mod s) (slots st))"
    then have m: "m < s" using sl by simp
    let ?i = "length hs - s + m"
    have i: "?i < length hs" "length hs - ?i \<le> s" using m n by simp_all
    have "(length hs mod s + m) mod s = ?i mod s"
    proof -
      have "(length hs mod s + m) mod s = (length hs + m) mod s" by (simp add: mod_add_left_eq)
      also have "length hs + m = ?i + s" using n by simp
      also have "(?i + s) mod s = ?i mod s" by simp
      finally show ?thesis .
    qed
    then have "rotate (length hs mod s) (slots st) ! m = slots st ! (?i mod s)"
      using m sl by (simp add: nth_rotate)
    also have "\<dots> = broadcast_to (slot_shape st) (f (hs ! ?i))"
      using sl(4) i by (simp add: holds_def)
    also have "\<dots> = Some (data (f (hs ! ?i)))"
      using same i(1) sl(2) by (simp add: broadcast_to_same)
    also have "\<dots> = map (Some \<circ> data \<circ> f) (drop (length hs - s) hs) ! m"
      using m n by simp
    finally show "rotate (length hs mod s) (slots st) ! m = map (Some \<circ> data \<circ> f) (drop (length hs - s) hs) ! m" .
  qed
  then show ?thesis using sl by blast
qed

lemma ring_None_iff: "ring s hs f arr \<Longrightarrow> arr = None \<longleftrightarrow> hs = []"
  by (cases "hs = []") (auto simp: ring_def)

lemma ring_store_peek:
  assumes "ring s hs f arr"
    and "store_slot (if hs = [] then Some (empty_storage s v) else arr) i v = Inr arr'"
    and "j < s"
  shows "\<exists>st. arr' = Some st \<and> peek arr' j = (if j = i then broadcast_to (slot_shape st) v else peek arr j)"
proof (cases "hs = []")
  case True
  then have "arr = None" using assms(1) by (simp add: ring_def)
  then show ?thesis
    using assms(2,3) True
    by (auto simp: store_slot_def peek_def empty_storage_def split: if_splits option.splits)
next
  case False
  then obtain st0 where "arr = Some st0" "length (slots st0) = s"
    using assms(1) by (auto simp: ring_def)
  then show ?thesis
    using assms(2,3) False by (auto simp: store_slot_def peek_def split: if_splits option.splits)
qed

lemma ring_store_shape:
  assumes "ring s hs f arr"
    and "store_slot (if hs = [] then Some (empty_storage s (f x)) else arr) i (f x) = Inr (Some st)"
  shows "slot_shape st = shape (f (hd (hs @ [x])))"
proof (cases "hs = []")
  case True
  then show ?thesis
    using assms(2) by (auto simp: store_slot_def empty_storage_def split: if_splits option.splits)
next
  case False
  then obtain st0 where "arr = Some st0" "slot_shape st0 = shape (f (hd hs))"
    using assms(1) by (auto simp: ring_def)
  then show ?thesis
    using assms(2) False by (auto simp: store_slot_def split: if_splits option.splits)
qed

subsection \<open>The buffer after a run of \<open>put\<close> calls\<close>

lemma Buffer_init_inv: "Buffer_init env n_steps0 n_stack0 size0 = Inr b0 \<Longrightarrow> buf_inv b0 [] b0"
  by (auto simp: Buffer_init_def buf_inv_def ring_def split: prod.splits if_splits)

lemma allocate_fields:
  assumes inv: "buf_inv b0 hs b"
  shows "enc_obs (allocate b x) = (if hs = [] then Some (empty_storage (size_slots b0) (b_enc_obs x)) else enc_obs b)"
    and "actions (allocate b x) = (if hs = [] then Some (empty_storage (size_slots b0) (b_actions x)) else actions b)"
    and "rewards (allocate b x) = (if hs = [] then Some (empty_storage (size_slots b0) (b_rewards x)) else rewards b)"
    and "mus (allocate b x) = (if hs = [] then Some (empty_storage (size_slots b0) (b_mus x)) else mus b)"
    and "dones (allocate b x) = (if hs = [] then Some (empty_storage (size_slots b0) (b_dones x)) else dones b)"
    and "masks (allocate b x) = (if hs = [] then Some (empty_storage (size_slots b0) (b_masks x)) else masks b)"
    and "next_idx (allocate b x) = length hs mod size_slots b0"
    and "size_slots (allocate b x) = size_slots b0"
    and "num_in_buffer (allocate b x) = min (length hs) (size_slots b0)"
    and "n_env (allocate b x) = n_env b0" and "n_steps (allocate b x) = n_steps b0"
    and "height (allocate b x) = height b0" and "width (allocate b x) = width b0"
    and "n_channels (allocate b x) = n_channels b0" and "n_stack (allocate b x) = n_stack b0"
    and "n_batch (allocate b x) = n_batch b0"
proof -
  have "enc_obs b = None \<longleftrightarrow> hs = []"
    using inv ring_None_iff [of "size_slots b0" hs b_enc_obs "enc_obs b"] by (simp add: buf_inv_def)
  then show "enc_obs (allocate b x) = (if hs = [] then Some (empty_storage (size_slots b0) (b_enc_obs x)) else enc_obs b)"
    and "actions (allocate b x) = (if hs = [] then Some (empty_storage (size_slots b0) (b_actions x)) else actions b)"
    and "rewards (allocate b x) = (if hs = [] then Some (empty_storage (size_slots b0) (b_rewards x)) else rewards b)"
    and "mus (allocate b x) = (if hs = [] then Some (empty_storage (size_slots b0) (b_mus x)) else mus b)"
    and "dones (allocate b x) = (if hs = [] then Some (empty_storage (size_slots b0) (b_dones x)) else dones b)"
    and "masks (allocate b x) = (if hs = [] then Some (empty_storage (size_slots b0) (b_masks x)) else masks b)"
    and "next_idx (allocate b x) = length hs mod size_slots b0"
    and "size_slots (allocate b x) = size_slots b0"
    and "num_in_buffer (allocate b x) = min (length hs) (size_slots b0)"
    and "n_env (allocate b x) = n_env b0" and "n_steps (allocate b x) = n_steps b0"
    and "height (allocate b x) = height b0" and "width (allocate b x) = width b0"
    and "n_channels (allocate b x) = n_channels b0" and "n_stack (allocate b x) = n_stack b0"
    and "n_batch (allocate b x) = n_batch b0"
    using inv by (simp_all add: allocate_def buf_inv_def)
qed

lemma put_stores:
  assumes p: "put b x = Inr b'"
  shows "\<exists>eo ac rw mu dn mk.
           store_slot (enc_obs (allocate b x)) (next_idx (allocate b x)) (b_enc_obs x) = Inr eo
         \<and> store_slot (actions (allocate b x)) (next_idx (allocate b x)) (b_actions x) = Inr ac
         \<and> store_slot (rewards (allocate b x)) (next_idx (allocate b x)) (b_rewards x) = Inr rw
         \<and> store_slot (mus (allocate b x)) (next_idx (allocate b x)) (b_mus x) = Inr mu
         \<and> store_slot (dones (allocate b x)) (next_idx (allocate b x)) (b_dones x) = Inr dn
         \<and> store_slot (masks (allocate b x)) (next_idx (allocate b x)) (b_masks x) = Inr mk
         \<and> size_slots (allocate b x) \<noteq> 0
         \<and> b' = (allocate b x)\<lparr> enc_obs := eo, actions := ac, rewards := rw,
                      mus := mu, dones := dn, masks := mk,
                      next_idx := (next_idx (allocate b x) + 1) mod size_slots (allocate b x),
                      num_in_buffer := min (size_slots (allocate b x)) (num_in_buffer (allocate b x) + 1) \<rparr>"
  using p by (auto simp: put_def Let_def bind_def split: sum.splits if_splits)

lemma put_inv:
  assumes s: "0 < size_slots b0" and inv: "buf_inv b0 hs b" and p: "put b x = Inr b'"
  shows "buf_inv b0 (hs @ [x]) b'"
proof -
  let ?s = "size_slots b0"
  let ?n = "length hs"
  let ?b = "allocate b x"
  note al = allocate_fields [OF inv, of x]
  have r: "ring ?s hs b_enc_obs (enc_obs b)" "ring ?s hs b_actions (actions b)"
    "ring ?s hs b_rewards (rewards b)" "ring ?s hs b_mus (mus b)"
    "ring ?s hs b_dones (dones b)" "ring ?s hs b_masks (masks b)"
    using inv by (simp_all add: buf_inv_def)
  from put_stores [OF p] obtain eo ac rw mu dn mk where
    st: "store_slot (enc_obs ?b) (next_idx ?b) (b_enc_obs x) = Inr eo"
        "store_slot (actions ?b) (next_idx ?b) (b_actions x) = Inr ac"
        "store_slot (rewards ?b) (next_idx ?b) (b_rewards x) = Inr rw"
        "store_slot (mus ?b) (next_idx ?b) (b_mus x) = Inr mu"
        "store_slot (dones ?b) (next_idx ?b) (b_dones x) = Inr dn"
        "store_slot (masks ?b) (next_idx ?b) (b_masks x) = Inr mk"
    and b': "b' = ?b\<lparr> enc_obs := eo, actions := ac, rewards := rw,
                      mus := mu, dones := dn, masks := mk,
                      next_idx := (next_idx ?b + 1) mod size_slots ?b,
                      num_in_buffer := min (size_slots ?b) (num_in_buffer ?b + 1) \<rparr>"
    by blast
  have rr: "ring ?s (hs @ [x]) b_enc_obs eo" "ring ?s (hs @ [x]) b_actions ac"
    "ring ?s (hs @ [x]) b_rewards rw" "ring ?s (hs @ [x]) b_mus mu"
    "ring ?s (hs @ [x]) b_dones dn" "ring ?s (hs @ [x]) b_masks mk"
    using ring_store [OF s r(1), of x eo] ring_store [OF s r(2), of x ac]
      ring_store [OF s r(3), of x rw] ring_store [OF s r(4), of x mu]
      ring_store [OF s r(5), of x dn] ring_store [OF s r(6), of x mk] st al(1-7)
    by simp_all
  have nx: "(?n mod ?s + 1) mod ?s = (?n + 1) mod ?s"
    by (simp add: mod_Suc_eq)
  have nm: "min ?s (min ?n ?s + 1) = min (?n + 1) ?s" by simp
  show ?thesis
    unfolding buf_inv_def b' using al(7-16) rr nx nm by simp
qed

lemma put_ok:
  assumes s: "0 < size_slots b0" and inv: "buf_inv b0 hs b"
    and ok: "arrays_ok x" and shp: "same_shapes (hd (hs @ [x])) x"
  shows "\<exists>b'. put b x = Inr b'"
proof -
  let ?s = "size_slots b0"
  let ?b = "allocate b x"
  note al = allocate_fields [OF inv, of x]
  have r: "ring ?s hs b_enc_obs (enc_obs b)" "ring ?s hs b_actions (actions b)"
    "ring ?s hs b_rewards (rewards b)" "ring ?s hs b_mus (mus b)"
    "ring ?s hs b_dones (dones b)" "ring ?s hs b_masks (masks b)"
    using inv by (simp_all add: buf_inv_def)
  have a: "array_ok (b_enc_obs x)" "array_ok (b_actions x)" "array_ok (b_rewards x)"
    "array_ok (b_mus x)" "array_ok (b_dones x)" "array_ok (b_masks x)"
    using ok by (simp_all add: arrays_ok_def)
  have e: "shape (b_enc_obs x) = shape (b_enc_obs (hd (hs @ [x])))"
    "shape (b_actions x) = shape (b_actions (hd (hs @ [x])))"
    "shape (b_rewards x) = shape (b_rewards (hd (hs @ [x])))"
    "shape (b_mus x) = shape (b_mus (hd (hs @ [x])))"
    "shape (b_dones x) = shape (b_dones (hd (hs @ [x])))"
    "shape (b_masks x) = shape (b_masks (hd (hs @ [x])))"
    using shp by (simp_all add: same_shapes_def)
  obtain eo where eo: "store_slot (enc_obs ?b) (next_idx ?b) (b_enc_obs x) = Inr eo"
    using ring_store_ok [OF s r(1) a(1) e(1)] al(1,7) by auto
  obtain ac where ac: "store_slot (actions ?b) (next_idx ?b) (b_actions x) = Inr ac"
    using ring_store_ok [OF s r(2) a(2) e(2)] al(2,7) by auto
  obtain rw where rw: "store_slot (rewards ?b) (next_idx ?b) (b_rewards x) = Inr rw"
    using ring_store_ok [OF s r(3) a(3) e(3)] al(3,7) by auto
  obtain mu where mu: "store_slot (mus ?b) (next_idx ?b) (b_mus x) = Inr mu"
    using ring_store_ok [OF s r(4) a(4) e(4)] al(4,7) by auto
  obtain dn where dn: "store_slot (dones ?b) (next_idx ?b) (b_dones x) = Inr dn"
    using ring_store_ok [OF s r(5) a(5) e(5)] al(5,7) by auto
  obtain mk where mk: "store_slot (masks ?b) (next_idx ?b) (b_masks x) = Inr mk"
    using ring_store_ok [OF s r(6) a(6) e(6)] al(6,7) by auto
  show ?thesis
    using s al(8) by (simp add: put_def Let_def bind_def eo ac rw mu dn mk)
qed

lemma puts_inv:
  assumes s: "0 < size_slots b0"
  shows "buf_inv b0 hs b \<Longrightarrow> puts b xs = Inr b' \<Longrightarrow> buf_inv b0 (hs @ xs) b'"
proof (induction xs arbitrary: b hs)
  case Nil
  then show ?case by simp
next
  case (Cons x xs)
  from Cons.prems(2) obtain b1 where b1: "put b x = Inr b1" "puts b1 xs = Inr b'"
    by (auto simp: bind_def split: sum.splits)
  have "buf_inv b0 (hs @ [x]) b1" by (rule put_inv [OF s Cons.prems(1) b1(1)])
  then have "buf_inv b0 ((hs @ [x]) @ xs) b'" using b1(2) by (rule Cons.IH)
  then show ?case by simp
qed

lemma puts_ok:
  assumes s: "0 < size_slots b0"
  shows "buf_inv b0 hs b \<Longrightarrow> \<forall>x\<in>set xs. arrays_ok x \<and> same_shapes (hd (hs @ xs)) x
           \<Longrightarrow> \<exists>b'. puts b xs = Inr b'"
proof (induction xs arbitrary: b hs)
  case Nil
  then show ?case by simp
next
  case (Cons x xs)
  have hd1: "hd (hs @ [x]) = hd (hs @ x # xs)" by (cases hs) simp_all
  obtain b1 where b1: "put b x = Inr b1"
    using put_ok [OF s Cons.prems(1), of x] Cons.prems(2) hd1 by auto
  have inv1: "buf_inv b0 (hs @ [x]) b1" by (rule put_inv [OF s Cons.prems(1) b1])
  have "\<forall>y\<in>set xs. arrays_ok y \<and> same_shapes (hd ((hs @ [x]) @ xs)) y"
    using Cons.prems(2) by simp
  from Cons.IH [OF inv1 this] obtain b' where "puts b1 xs = Inr b'" by blast
  then show ?case using b1 by (simp add: bind_def)
qed

lemma put_inv_peek:
  assumes s: "0 < size_slots b0" and inv: "buf_inv b0 hs b" and p: "put b x = Inr b'"
    and ok: "arrays_ok x" and shp: "same_shapes (hd (hs @ [x])) x"
    and j: "j < size_slots b0"
  shows "peek (enc_obs b') j = (if j = next_idx b then Some (data (b_enc_obs x)) else peek (enc_obs b) j)"
    and "peek (actions b') j = (if j = next_idx b then Some (data (b_actions x)) else peek (actions b) j)"
    and "peek (rewards b') j = (if j = next_idx b then Some (data (b_rewards x)) else peek (rewards b) j)"
    and "peek (mus b') j = (if j = next_idx b then Some (data (b_mus x)) else peek (mus b) j)"
    and "peek (dones b') j = (if j = next_idx b then Some (data (b_dones x)) else peek (dones b) j)"
    and "peek (masks b') j = (if j = next_idx b then Some (data (b_masks x)) else peek (masks b) j)"
proof -
  let ?s = "size_slots b0"
  let ?b = "allocate b x"
  note al = allocate_fields [OF inv, of x]
  have r: "ring ?s hs b_enc_obs (enc_obs b)" "ring ?s hs b_actions (actions b)"
    "ring ?s hs b_rewards (rewards b)" "ring ?s hs b_mus (mus b)"
    "ring ?s hs b_dones (dones b)" "ring ?s hs b_masks (masks b)"
    and nx: "next_idx b = length hs mod ?s"
    using inv by (simp_all add: buf_inv_def)
  have a: "array_ok (b_enc_obs x)" "array_ok (b_actions x)" "array_ok (b_rewards x)"
    "array_ok (b_mus x)" "array_ok (b_dones x)" "array_ok (b_masks x)"
    using ok by (simp_all add: arrays_ok_def)
  have e: "shape (b_enc_obs x) = shape (b_enc_obs (hd (hs @ [x])))"
    "shape (b_actions x) = shape (b_actions (hd (hs @ [x])))"
    "shape (b_rewards x) = shape (b_rewards (hd (hs @ [x])))"
    "shape (b_mus x) = shape (b_mus (hd (hs @ [x])))"
    "shape (b_dones x) = shape (b_dones (hd (hs @ [x])))"
    "shape (b_masks x) = shape (b_masks (hd (hs @ [x])))"
    using shp by (simp_all add: same_shapes_def)
  from put_stores [OF p] obtain eo ac rw mu dn mk where
    st: "store_slot (enc_obs ?b) (next_idx ?b) (b_enc_obs x) = Inr eo"
        "store_slot (actions ?b) (next_idx ?b) (b_actions x) = Inr ac"
        "store_slot (rewards ?b) (next_idx ?b) (b_rewards x) = Inr rw"
        "store_slot (mus ?b) (next_idx ?b) (b_mus x) = Inr mu"
        "store_slot (dones ?b) (next_idx ?b) (b_dones x) = Inr dn"
        "store_slot (masks ?b) (next_idx ?b) (b_masks x) = Inr mk"
    and b': "enc_obs b' = eo" "actions b' = ac" "rewards b' = rw" "mus b' = mu"
        "dones b' = dn" "masks b' = mk"
    by auto
  have one: "peek arr' j = (if j = next_idx b then Some (data (f x)) else peek arr j)"
    if h1: "ring ?s hs f arr"
      and h2: "store_slot (if hs = [] then Some (empty_storage ?s (f x)) else arr) (length hs mod ?s) (f x) = Inr arr'"
      and h3: "array_ok (f x)" and h4: "shape (f x) = shape (f (hd (hs @ [x])))"
    for f :: "batch \<Rightarrow> 'a ndarray" and arr arr'
  proof -
    obtain st where st: "arr' = Some st"
        "peek arr' j = (if j = length hs mod ?s then broadcast_to (slot_shape st) (f x) else peek arr j)"
      using ring_store_peek [OF h1 h2 j] by blast
    have "slot_shape st = shape (f x)"
      using ring_store_shape [OF h1, of x _ st] h2 h4 st(1) by simp
    then have "broadcast_to (slot_shape st) (f x) = Some (data (f x))"
      using h3 by (simp add: broadcast_to_same)
    then show ?thesis using st(2) nx by simp
  qed
  show "peek (enc_obs b') j = (if j = next_idx b then Some (data (b_enc_obs x)) else peek (enc_obs b) j)"
    using one [OF r(1) _ a(1) e(1)] st(1) al(1,7) b'(1) by simp
  show "peek (actions b') j = (if j = next_idx b then Some (data (b_actions x)) else peek (actions b) j)"
    using one [OF r(2) _ a(2) e(2)] st(2) al(2,7) b'(2) by simp
  show "peek (rewards b') j = (if j = next_idx b then Some (data (b_rewards x)) else peek (rewards b) j)"
    using one [OF r(3) _ a(3) e(3)] st(3) al(3,7) b'(3) by simp
  show "peek (mus b') j = (if j = next_idx b then Some (data (b_mus x)) else peek (mus b) j)"
    using one [OF r(4) _ a(4) e(4)] st(4) al(4,7) b'(4) by simp
  show "peek (dones b') j = (if j = next_idx b then Some (data (b_dones x)) else peek (dones b) j)"
    using one [OF r(5) _ a(5) e(5)] st(5) al(5,7) b'(5) by simp
  show "peek (masks b') j = (if j = next_idx b then Some (data (b_masks x)) else peek (masks b) j)"
    using one [OF r(6) _ a(6) e(6)] st(6) al(6,7) b'(6) by simp
qed

subsection \<open>Circularity of \<open>put\<close>\<close>

text \<open>
  Claim C7. A buffer is constructed with at least one slot, and the batches put are
  arrays whose six shapes are those of the first batch. After \<open>size + k\<close> calls of
  \<open>put\<close>, \<open>num_in_buffer\<close> is \<open>size\<close>, \<open>next_idx\<close> is \<open>k mod size\<close>, and each
  of the six arrays has slots of the shape of the first batch and, read from
  \<open>next_idx\<close> round the ring, holds exactly the last \<open>size\<close> batches in the order
  they were put: the slot at \<open>next_idx\<close> is the oldest. After any number of such
  calls, \<open>num_in_buffer \<le> size\<close>, \<open>next_idx\<close> is a slot, and the next \<open>put\<close>
  succeeds, writes its batch into slot \<open>next_idx\<close> of every array and leaves the
  other slots as they were.
\<close>

theorem put_circular:
  assumes init: "Buffer_init env n_steps0 n_stack0 size0 = Inr b0"
    and size: "1 \<le> size_slots b0"
    and len: "length xs = size_slots b0 + k"
    and shapes: "\<forall>x\<in>set xs. arrays_ok x \<and> same_shapes (hd xs) x"
  shows "(\<exists>b eo ac rw mu dn mk.
            puts b0 xs = Inr b
          \<and> size_slots b = size_slots b0
          \<and> num_in_buffer b = size_slots b0
          \<and> next_idx b = k mod size_slots b0
          \<and> enc_obs b = Some eo \<and> slot_shape eo = shape (b_enc_obs (hd xs))
          \<and> rotate (next_idx b) (slots eo) = map (Some \<circ> data \<circ> b_enc_obs) (drop k xs)
          \<and> actions b = Some ac \<and> slot_shape ac = shape (b_actions (hd xs))
          \<and> rotate (next_idx b) (slots ac) = map (Some \<circ> data \<circ> b_actions) (drop k xs)
          \<and> rewards b = Some rw \<and> slot_shape rw = shape (b_rewards (hd xs))
          \<and> rotate (next_idx b) (slots rw) = map (Some \<circ> data \<circ> b_rewards) (drop k xs)
          \<and> mus b = Some mu \<and> slot_shape mu = shape (b_mus (hd xs))
          \<and> rotate (next_idx b) (slots mu) = map (Some \<circ> data \<circ> b_mus) (drop k xs)
          \<and> dones b = Some dn \<and> slot_shape dn = shape (b_dones (hd xs))
          \<and> rotate (next_idx b) (slots dn) = map (Some \<circ> data \<circ> b_dones) (drop k xs)
          \<and> masks b = Some mk \<and> slot_shape mk = shape (b_masks (hd xs))
          \<and> rotate (next_idx b) (slots mk) = map (Some \<circ> data \<circ> b_masks) (drop k xs))
       \<and> (\<forall>ys x. (\<forall>y\<in>set (ys @ [x]). arrays_ok y \<and> same_shapes (hd (ys @ [x])) y) \<longrightarrow>
           (\<exists>b b'.
            puts b0 ys = Inr b
          \<and> num_in_buffer b \<le> size_slots b
          \<and> next_idx b < size_slots b
          \<and> put b x = Inr b'
          \<and> (\<forall>j < size_slots b.
                 peek (enc_obs b') j = (if j = next_idx b then Some (data (b_enc_obs x)) else peek (enc_obs b) j)
               \<and> peek (actions b') j = (if j = next_idx b then Some (data (b_actions x)) else peek (actions b) j)
               \<and> peek (rewards b') j = (if j = next_idx b then Some (data (b_rewards x)) else peek (rewards b) j)
               \<and> peek (mus b') j = (if j = next_idx b then Some (data (b_mus x)) else peek (mus b) j)
               \<and> peek (dones b') j = (if j = next_idx b then Some (data (b_dones x)) else peek (dones b) j)
               \<and> peek (masks b') j = (if j = next_idx b then Some (data (b_masks x)) else peek (masks b) j))))"
proof (intro conjI allI impI)
  let ?s = "size_slots b0"
  have s: "0 < ?s" using size by simp
  have inv0: "buf_inv b0 [] b0" using init by (rule Buffer_init_inv)
  obtain b where b1: "puts b0 xs = Inr b"
    using puts_ok [OF s inv0, of xs] shapes by auto
  have b2: "buf_inv b0 xs b"
    using puts_inv [OF s inv0 b1] by simp
  have n: "?s \<le> length xs" and k: "length xs - ?s = k" and m: "length xs mod ?s = k mod ?s"
    using len by simp_all
  have r: "ring ?s xs b_enc_obs (enc_obs b)" "ring ?s xs b_actions (actions b)"
    "ring ?s xs b_rewards (rewards b)" "ring ?s xs b_mus (mus b)"
    "ring ?s xs b_dones (dones b)" "ring ?s xs b_masks (masks b)"
    and st: "size_slots b = ?s" "next_idx b = k mod ?s" "num_in_buffer b = ?s"
    using b2 n m by (simp_all add: buf_inv_def)
  have u: "\<forall>x\<in>set xs. array_ok (b_enc_obs x) \<and> shape (b_enc_obs x) = shape (b_enc_obs (hd xs))"
    "\<forall>x\<in>set xs. array_ok (b_actions x) \<and> shape (b_actions x) = shape (b_actions (hd xs))"
    "\<forall>x\<in>set xs. array_ok (b_rewards x) \<and> shape (b_rewards x) = shape (b_rewards (hd xs))"
    "\<forall>x\<in>set xs. array_ok (b_mus x) \<and> shape (b_mus x) = shape (b_mus (hd xs))"
    "\<forall>x\<in>set xs. array_ok (b_dones x) \<and> shape (b_dones x) = shape (b_dones (hd xs))"
    "\<forall>x\<in>set xs. array_ok (b_masks x) \<and> shape (b_masks x) = shape (b_masks (hd xs))"
    using shapes by (simp_all add: arrays_ok_def same_shapes_def)
  show "\<exists>b eo ac rw mu dn mk.
            puts b0 xs = Inr b
          \<and> size_slots b = size_slots b0
          \<and> num_in_buffer b = size_slots b0
          \<and> next_idx b = k mod size_slots b0
          \<and> enc_obs b = Some eo \<and> slot_shape eo = shape (b_enc_obs (hd xs))
          \<and> rotate (next_idx b) (slots eo) = map (Some \<circ> data \<circ> b_enc_obs) (drop k xs)
          \<and> actions b = Some ac \<and> slot_shape ac = shape (b_actions (hd xs))
          \<and> rotate (next_idx b) (slots ac) = map (Some \<circ> data \<circ> b_actions) (drop k xs)
          \<and> rewards b = Some rw \<and> slot_shape rw = shape (b_rewards (hd xs))
          \<and> rotate (next_idx b) (slots rw) = map (Some \<circ> data \<circ> b_rewards) (drop k xs)
          \<and> mus b = Some mu \<and> slot_shape mu = shape (b_mus (hd xs))
          \<and> rotate (next_idx b) (slots mu) = map (Some \<circ> data \<circ> b_mus) (drop k xs)
          \<and> dones b = Some dn \<and> slot_shape dn = shape (b_dones (hd xs))
          \<and> rotate (next_idx b) (slots dn) = map (Some \<circ> data \<circ> b_dones) (drop k xs)
          \<and> masks b = Some mk \<and> slot_shape mk = shape (b_masks (hd xs))
          \<and> rotate (next_idx b) (slots mk) = map (Some \<circ> data \<circ> b_masks) (drop k xs)"
    using b1 st
      ring_rotate [OF s r(1) n u(1)] ring_rotate [OF s r(2) n u(2)] ring_rotate [OF s r(3) n u(3)]
      ring_rotate [OF s r(4) n u(4)] ring_rotate [OF s r(5) n u(5)] ring_rotate [OF s r(6) n u(6)]
    unfolding k m by auto
next
  fix ys x
  assume sh: "\<forall>y\<in>set (ys @ [x]). arrays_ok y \<and> same_shapes (hd (ys @ [x])) y"
  let ?s = "size_slots b0"
  have s: "0 < ?s" using size by simp
  have inv0: "buf_inv b0 [] b0" using init by (rule Buffer_init_inv)
  have hd1: "ys \<noteq> [] \<Longrightarrow> hd (ys @ [x]) = hd ys" by simp
  have "\<forall>y\<in>set ys. arrays_ok y \<and> same_shapes (hd ([] @ ys)) y"
    using sh hd1 by (cases "ys = []") auto
  then obtain b where b1: "puts b0 ys = Inr b"
    using puts_ok [OF s inv0, of ys] by auto
  have b2: "buf_inv b0 ys b"
    using puts_inv [OF s inv0 b1] by simp
  have okx: "arrays_ok x" "same_shapes (hd (ys @ [x])) x" using sh by simp_all
  obtain b' where b': "put b x = Inr b'"
    using put_ok [OF s b2 okx] by blast
  have st: "size_slots b = ?s" "next_idx b < ?s" "num_in_buffer b \<le> ?s"
    using b2 s by (simp_all add: buf_inv_def)
  show "\<exists>b b'.
            puts b0 ys = Inr b
          \<and> num_in_buffer b \<le> size_slots b
          \<and> next_idx b < size_slots b
          \<and> put b x = Inr b'
          \<and> (\<forall>j < size_slots b.
                 peek (enc_obs b') j = (if j = next_idx b then Some (data (b_enc_obs x)) else peek (enc_obs b) j)
               \<and> peek (actions b') j = (if j = next_idx b then Some (data (b_actions x)) else peek (actions b) j)
               \<and> peek (rewards b') j = (if j = next_idx b then Some (data (b_rewards x)) else peek (rewards b) j)
               \<and> peek (mus b') j = (if j = next_idx b then Some (data (b_mus x)) else peek (mus b) j)
               \<and> peek (dones b') j = (if j = next_idx b then Some (data (b_dones x)) else peek (dones b) j)
               \<and> peek (masks b') j = (if j = next_idx b then Some (data (b_masks x)) else peek (masks b) j))"
    using b1 b' st put_inv_peek [OF s b2 b' okx] by (intro exI [of _ b] exI [of _ b']) simp
qed

theorem put_circular_witness:
  "Buffer_init env1 2 4 4 = Inr buffer_2 \<and> 1 \<le> size_slots buffer_2
   \<and> length [batch_a, batch_b, batch_c] = size_slots buffer_2 + 1
   \<and> arrays_ok batch_a \<and> arrays_ok batch_b \<and> arrays_ok batch_c
   \<and> same_shapes batch_a batch_a \<and> same_shapes batch_a batch_b \<and> same_shapes batch_a batch_c
   \<and> (\<exists>b eo. puts buffer_2 [batch_a, batch_b, batch_c] = Inr b
          \<and> num_in_buffer b = 2 \<and> next_idx b = 1 \<and> enc_obs b = Some eo
          \<and> slot_shape eo = [1, 6, 1, 1, 1]
          \<and> rotate 1 (slots eo) = [Some [3, 4, 5, 6, 7, 8], Some [5, 6, 7, 8, 9, 10]])"
proof -
  have init: "Buffer_init env1 2 4 4 = Inr buffer_2"
    by (simp add: Buffer_init_def env1_def buffer_2_def)
  have size: "1 \<le> size_slots buffer_2"
    by (simp add: buffer_2_def)
  have len: "length [batch_a, batch_b, batch_c] = size_slots buffer_2 + 1"
    by (simp add: buffer_2_def)
  have ok: "arrays_ok batch_a" "arrays_ok batch_b" "arrays_ok batch_c"
    by (simp_all add: arrays_ok_def array_ok_def batch_a_def batch_b_def batch_c_def)
  have same: "same_shapes batch_a batch_a" "same_shapes batch_a batch_b" "same_shapes batch_a batch_c"
    by (simp_all add: same_shapes_def batch_a_def batch_b_def batch_c_def)
  have shapes: "\<forall>x\<in>set [batch_a, batch_b, batch_c]. arrays_ok x \<and> same_shapes (hd [batch_a, batch_b, batch_c]) x"
    using ok same by simp
  have sz: "size_slots buffer_2 = 2"
    by (simp add: buffer_2_def)
  have d: "b_enc_obs batch_a = \<lparr> shape = [1, 6, 1, 1, 1], data = [1, 2, 3, 4, 5, 6] \<rparr>"
    "b_enc_obs batch_b = \<lparr> shape = [1, 6, 1, 1, 1], data = [3, 4, 5, 6, 7, 8] \<rparr>"
    "b_enc_obs batch_c = \<lparr> shape = [1, 6, 1, 1, 1], data = [5, 6, 7, 8, 9, 10] \<rparr>"
    by (simp_all add: batch_a_def batch_b_def batch_c_def)
  show ?thesis
    using put_circular [OF init size len shapes] init size len ok same unfolding sz by (auto simp: d)
qed

text \<open>
  Batches of another shape. A batch that numpy can broadcast to the shape of the
  slots is stored as its broadcast: rewards \<open>[5, 7]\<close> with one axis go into the slot
  of shape \<open>[1, 2]\<close>. A batch that cannot be broadcast makes \<open>put\<close> raise a
  \<open>ValueError\<close>: five frames do not fit slots of six.
\<close>

lemma put_broadcasts:
  "\<exists>b rw. puts buffer_2 [batch_a, batch_row] = Inr b \<and> rewards b = Some rw
      \<and> slot_shape rw = [1, 2] \<and> slots rw = [Some [0, 1], Some [5, 7]]"
  by (simp add: bind_def put_def allocate_def store_slot_def empty_storage_def Let_def
      buffer_2_def batch_a_def batch_b_def batch_row_def
      broadcast_to_def broadcastable_def eval_nat_numeral upt_conv_Cons)

lemma put_shape_mismatch:
  "puts buffer_2 [batch_a, batch_short] = Inl ValueError"
  by (simp add: bind_def put_def allocate_def store_slot_def empty_storage_def Let_def
      buffer_2_def batch_a_def batch_b_def batch_short_def
      broadcast_to_def broadcastable_def)

lemma put_not_broadcastable:
  assumes s: "0 < size_slots b0" and inv: "buf_inv b0 hs b" and ne: "hs \<noteq> []"
    and bc: "broadcast_to (shape (b_enc_obs (hd hs))) (b_enc_obs x) = None"
  shows "put b x = Inl ValueError"
proof -
  note al = allocate_fields [OF inv, of x]
  obtain st where st: "enc_obs b = Some st" "slot_shape st = shape (b_enc_obs (hd hs))"
      "length (slots st) = size_slots b0"
    using inv ne by (auto simp: buf_inv_def ring_def)
  have "length hs mod size_slots b0 < size_slots b0" using s by simp
  then have "store_slot (enc_obs (allocate b x)) (next_idx (allocate b x)) (b_enc_obs x) = Inl ValueError"
    using al(1,7) ne st bc by (simp add: store_slot_def)
  then show ?thesis by (simp add: put_def Let_def bind_def)
qed

subsection \<open>Construction with a size below \<open>n_steps\<close>\<close>

text \<open>
  Claim C2 says that a requested size below \<open>n_steps\<close> fails at construction. The
  constructor has no such check: \<open>Buffer(env, n_steps=20, n_stack=4, size=10)\<close>
  returns a buffer of zero slots.
\<close>

theorem Buffer_init_small_size_constructs:
  "Buffer_init env1 20 4 10 =
     Inr \<lparr> n_env = 1, n_steps = 20, height = 1, width = 1, n_channels = 1,
           n_stack = 4, n_batch = 20, size_slots = 0,
           enc_obs = None, actions = None, rewards = None,
           mus = None, dones = None, masks = None,
           next_idx = 0, num_in_buffer = 0 \<rparr>"
  by (simp add: Buffer_init_def env1_def)

text \<open>
  Claim C2, amended. With \<open>0 < n_steps\<close> and \<open>size < n_steps\<close> the construction
  succeeds and gives a buffer of zero slots with nothing allocated; the failure
  is the \<open>IndexError\<close> of the first \<open>put\<close>, whatever the batch.
\<close>

theorem Buffer_init_small_size:
  assumes "0 < n_steps0" and "size0 < n_steps0"
  shows "\<exists>b. Buffer_init env n_steps0 n_stack0 size0 = Inr b \<and> size_slots b = 0
            \<and> num_in_buffer b = 0 \<and> enc_obs b = None
            \<and> (\<forall>x. put b x = Inl IndexError)"
proof -
  obtain h w c where hwc: "observation_shape env = (h, w, c)"
    by (cases "observation_shape env") auto
  define b where "b = \<lparr> n_env = num_envs env, n_steps = n_steps0,
                   height = h, width = w, n_channels = c,
                   n_stack = n_stack0,
                   n_batch = num_envs env * n_steps0,
                   size_slots = size0 div n_steps0,
                   enc_obs = None, actions = None, rewards = None,
                   mus = None, dones = None, masks = None,
                   next_idx = 0, num_in_buffer = 0 \<rparr>"
  have 1: "Buffer_init env n_steps0 n_stack0 size0 = Inr b"
    using assms by (simp add: Buffer_init_def hwc b_def)
  have 2: "size_slots b = 0" "enc_obs b = None" "next_idx b = 0" "num_in_buffer b = 0"
    using assms by (simp_all add: b_def)
  have 3: "put b x = Inl IndexError" for x
    using 2 by (simp add: put_def allocate_def store_slot_def empty_storage_def bind_def Let_def)
  show ?thesis using 1 2 3 by blast
qed

theorem Buffer_init_small_size_witness:
  "(0::nat) < 20 \<and> (10::nat) < 20
   \<and> (\<exists>b. Buffer_init env1 20 4 10 = Inr b \<and> size_slots b = 0
            \<and> put b batch_a = Inl IndexError)"
  using Buffer_init_small_size [of 20 10 env1 4] by auto

text \<open>The only failure of the constructor is the division by \<open>n_steps = 0\<close>.\<close>

lemma Buffer_init_fails_iff:
  "(\<exists>e. Buffer_init env n_steps0 n_stack0 size0 = Inl e) \<longleftrightarrow> n_steps0 = 0"
  by (simp add: Buffer_init_def split: prod.splits)

subsection \<open>\<open>has_atleast\<close>\<close>

text \<open>
  Claim C9 says that \<open>has_atleast(frames)\<close> holds exactly when the steps stored per
  environment, \<open>num_in_buffer * n_steps\<close>, are at least \<open>frames\<close>, and so does the
  docstring of the function. The code compares \<open>num_in_buffer\<close> with the floor of
  \<open>frames / n_steps\<close>: with \<open>n_steps = 2\<close> and one batch stored (two steps),
  \<open>has_atleast(3)\<close> is true.
\<close>

theorem has_atleast_rounds_down:
  "bind (bind (Buffer_init env1 2 4 4) (\<lambda>b. put b batch_a))
        (\<lambda>b. bind (has_atleast b 3) (\<lambda>r. Inr (r, num_in_buffer b * n_steps b)))
   = Inr (True, 2)"
  by (simp add: bind_def Buffer_init_def env1_def put_def allocate_def store_slot_def
      empty_storage_def has_atleast_def Let_def broadcast_to_same array_ok_def batch_a_def)

text \<open>
  What the code does decide: it never answers false when enough steps are stored,
  and it agrees with the claim on every threshold that is a multiple of \<open>n_steps\<close>.
\<close>

lemma has_atleast_enough:
  assumes "0 < n_steps b" and "frames \<le> num_in_buffer b * n_steps b"
  shows "has_atleast b frames = Inr True"
proof -
  have "frames div n_steps b \<le> (num_in_buffer b * n_steps b) div n_steps b"
    using assms(2) by (rule div_le_mono)
  then show ?thesis using assms(1) by (simp add: has_atleast_def)
qed

lemma has_atleast_multiple:
  assumes "0 < n_steps b" and "n_steps b dvd frames"
  shows "has_atleast b frames = Inr (frames \<le> num_in_buffer b * n_steps b)"
proof -
  obtain q where q: "frames = n_steps b * q" using assms(2) by (auto elim: dvdE)
  then show ?thesis using assms(1) by (simp add: has_atleast_def mult.commute)
qed

section \<open>Properties of \<open>decode\<close>\<close>

subsection \<open>Reshaping the sampled arrays\<close>

lemma rows_shape:
  assumes "length xs = n * m"
  shows "length (rows n m xs) = n" and "\<forall>r\<in>set (rows n m xs). length r = m"
proof -
  show "length (rows n m xs) = n" by (simp add: rows_def)
  have "length (take m (drop (i * m) xs)) = m" if "i < n" for i
  proof -
    have "i * m + m \<le> n * m" using that
      by (metis Suc_leI add.commute mult_Suc mult_le_mono1)
    then show ?thesis using assms by simp
  qed
  then show "\<forall>r\<in>set (rows n m xs). length r = m" by (auto simp: rows_def)
qed

lemma rows_nth: "i < n \<Longrightarrow> rows n m xs ! i = take m (drop (i * m) xs)"
  by (simp add: rows_def)

lemma rows_map: "rows n m (map f xs) = map (map f) (rows n m xs)"
  by (simp add: rows_def take_map drop_map)

lemma frames_ok_sizes:
  assumes "frames_ok b enc dn"
  shows "length (data enc) = n_env b * ((n_steps b + n_stack b) * (height b * width b * n_channels b))"
    and "length (data dn) = n_env b * n_steps b"
  using assms by (simp_all add: frames_ok_def array_ok_def mult.assoc)

lemma frames_of_shape:
  assumes "frames_ok b enc dn"
  shows "length (frames_of b enc) = n_env b"
    and "\<forall>r\<in>set (frames_of b enc). length r = n_steps b + n_stack b
            \<and> (\<forall>f\<in>set r. length f = height b * width b * n_channels b)"
    and "length (flags_of b dn) = n_env b"
    and "\<forall>r\<in>set (flags_of b dn). length r = n_steps b"
proof -
  let ?t = "n_steps b + n_stack b"
  let ?npix = "height b * width b * n_channels b"
  note sz = frames_ok_sizes [OF assms]
  show "length (frames_of b enc) = n_env b"
    by (simp add: frames_of_def rows_def)
  show "\<forall>r\<in>set (frames_of b enc). length r = ?t \<and> (\<forall>f\<in>set r. length f = ?npix)"
  proof
    fix r assume "r \<in> set (frames_of b enc)"
    then obtain c where c: "c \<in> set (rows (n_env b) (?t * ?npix) (data enc))" "r = rows ?t ?npix c"
      by (auto simp: frames_of_def)
    have "length c = ?t * ?npix" using rows_shape(2) [OF sz(1)] c(1) by blast
    then show "length r = ?t \<and> (\<forall>f\<in>set r. length f = ?npix)"
      using rows_shape [of c ?t ?npix] c(2) by simp
  qed
  show "length (flags_of b dn) = n_env b"
    by (simp add: flags_of_def rows_def)
  show "\<forall>r\<in>set (flags_of b dn). length r = n_steps b"
    using rows_shape(2) [OF sz(2)] by (simp add: flags_of_def)
qed

lemma reshape_frames_ok:
  assumes "frames_ok b enc dn"
  shows "reshape_frames (n_env b) (n_steps b + n_stack b) (height b * width b * n_channels b) enc
           = Inr (frames_of b enc)"
  using frames_ok_sizes(1) [OF assms] by (simp add: reshape_frames_def frames_of_def mult.assoc)

lemma reshape_keep_ok:
  assumes "frames_ok b enc dn"
  shows "reshape_keep (n_env b) (n_steps b) dn = Inr (map (map keep) (flags_of b dn))"
  using frames_ok_sizes(2) [OF assms] by (simp add: reshape_keep_def flags_of_def rows_map)

subsection \<open>\<open>decode\<close> with four stacked frames\<close>

lemma fill_keep_stack4: "fill_keep (n + 3) e n src = Inr (replicate 3 (replicate e 1) @ src)"
  by (simp add: fill_keep_def)

lemma decode_stack4:
  assumes st: "n_stack b = 4" and ok: "frames_ok b enc dn"
  shows "decode b enc dn =
     Inr (map (\<lambda>e. map (\<lambda>k. map (\<lambda>j.
            fst (fold (decode_step 4) [0..<4]
                  (replicate 4 (replicate (n_steps b + 4) (replicate (n_env b)
                     (replicate (height b * width b * n_channels b) 0))),
                   swapaxes (n_steps b + 4) (frames_of b enc),
                   replicate 3 (replicate (n_env b) 1) @ swapaxes (n_steps b) (map (map keep) (flags_of b dn))))
              ! j ! (k + 3) ! e)
          [0..<4]) [0..<n_steps b + 1]) [0..<n_env b])"
proof -
  have 1: "reshape_frames (n_env b) (n_steps b + 4) (height b * width b * n_channels b) enc
             = Inr (frames_of b enc)"
    using reshape_frames_ok [OF ok] st by simp
  have 2: "reshape_keep (n_env b) (n_steps b) dn = Inr (map (map keep) (flags_of b dn))"
    by (rule reshape_keep_ok [OF ok])
  have 3: "n_steps b + 4 - 1 = n_steps b + 3" "n_steps b + 4 - 3 = n_steps b + 1" by simp_all
  show ?thesis
    unfolding decode_def Let_def st 1 2 3 bind_def fill_keep_stack4
    by (simp add: algebra_simps)
qed

subsection \<open>\<open>decode\<close> with another number of stacked frames\<close>

lemma bind_ValueError:
  assumes "\<And>x. f x = Inl ValueError" and "m = Inl ValueError \<or> (\<exists>x. m = Inr x)"
  shows "bind m f = Inl ValueError"
  using assms by (auto simp: bind_def)

lemma decode_error_is_ValueError: "decode b enc dn = Inl e \<Longrightarrow> e = ValueError"
  by (auto simp: decode_def Let_def bind_def reshape_frames_def reshape_keep_def fill_keep_def
      split: sum.splits if_splits)

lemma size_cancel:
  fixes s t e p n :: nat
  assumes "s * t * e * p = e * n * p * s" and "0 < s" and "0 < e" and "0 < p"
  shows "t = n"
proof -
  have "(s * e * p) * t = (s * e * p) * n" using assms(1) by (simp add: mult_ac)
  then show ?thesis using assms(2-4) by simp
qed

lemma decode_needs_stack4:
  assumes ok: "decode b enc dn = Inr out"
    and pos: "0 < n_stack b" "0 < n_env b" "0 < height b * width b * n_channels b"
  shows "n_stack b = 4"
proof (rule ccontr)
  assume ne: "n_stack b \<noteq> 4"
  let ?npix = "height b * width b * n_channels b"
  let ?t = "n_steps b + n_stack b"
  have "?t - 3 \<noteq> n_steps b + 1" using ne pos(1) by arith
  then have neq: "n_stack b * (?t - 3) * n_env b * ?npix \<noteq> n_env b * (n_steps b + 1) * ?npix * n_stack b"
    using size_cancel [OF _ pos] by blast
  have "decode b enc dn =
      bind (reshape_frames (n_env b) ?t ?npix enc) (\<lambda>x.
      bind (reshape_keep (n_env b) (n_steps b) dn) (\<lambda>k.
      bind (fill_keep (?t - 1) (n_env b) (n_steps b) (swapaxes (n_steps b) k)) (\<lambda>y_var.
        Inl ValueError)))"
    unfolding decode_def Let_def by (simp only: neq not_False_eq_True if_True)
  then have "\<exists>e. decode b enc dn = Inl e"
    by (auto simp: bind_def split: sum.splits)
  then show False using ok by simp
qed

lemma decode_fails_unless_stack4:
  assumes "n_stack b \<noteq> 4" and "0 < n_stack b" and "0 < n_env b"
    and "0 < height b * width b * n_channels b"
  shows "decode b enc dn = Inl ValueError"
proof (cases "decode b enc dn")
  case (Inl e)
  then show ?thesis using decode_error_is_ValueError by blast
next
  case (Inr out)
  then show ?thesis using decode_needs_stack4 assms by blast
qed

text \<open>
  Claim C1 asks for the reconstruction without leakage for \<open>n_stack\<close> 1, 2 and 4.
  \<open>decode\<close> writes the number of leading mask rows and of dropped rows as the
  constant 3, which is \<open>n_stack - 1\<close> only for four stacked frames. On the trace of
  frames numbered 1 to 4 with two stacked frames, and on the trace 1 to 3 with a
  single frame, the episode ending at the second step, it raises \<open>ValueError\<close>
  and reconstructs nothing.
\<close>

theorem decode_stack2_fails:
  "decode buffer_stack2 \<lparr> shape = [1, 4, 1, 1, 1], data = [1, 2, 3, 4] \<rparr>
                        \<lparr> shape = [1, 2], data = [False, True] \<rparr> = Inl ValueError
   \<and> decode buffer_stack1 \<lparr> shape = [1, 3, 1, 1, 1], data = [1, 2, 3] \<rparr>
                          \<lparr> shape = [1, 2], data = [False, True] \<rparr> = Inl ValueError"
  by (simp add: decode_def buffer_stack2_def buffer_stack1_def reshape_frames_def reshape_keep_def
      rows_def keep_def fill_keep_def swapaxes_def bind_def Let_def upt_conv_Cons)

subsection \<open>The loop of \<open>decode\<close> in closed form\<close>

lemma fold_decode_step:
  "fold (decode_step ns) [0..<i] (obs, x, y) =
     (fold (\<lambda>j ob. ob[ns - (j + 1) := take j (ob ! (ns - (j + 1))) @ masked x y j]) [0..<i] obs,
      masked x y i, drop i y)"
proof (induction i)
  case 0
  then show ?case by simp
next
  case (Suc i)
  have "tl (drop i y) = drop (Suc i) y" by (simp add: drop_Suc tl_drop)
  then show ?case using Suc by (simp add: decode_step_def)
qed

lemma fold_rows:
  assumes "length obs = ns" and "i \<le> ns"
  shows "length (fold (\<lambda>j ob. ob[ns - (j + 1) := take j (ob ! (ns - (j + 1))) @ f j]) [0..<i] obs) = ns
       \<and> (\<forall>r<ns - i. fold (\<lambda>j ob. ob[ns - (j + 1) := take j (ob ! (ns - (j + 1))) @ f j]) [0..<i] obs ! r = obs ! r)
       \<and> (\<forall>j<i. fold (\<lambda>j ob. ob[ns - (j + 1) := take j (ob ! (ns - (j + 1))) @ f j]) [0..<i] obs ! (ns - (j + 1))
                  = take j (obs ! (ns - (j + 1))) @ f j)"
  using assms(2)
proof (induction i)
  case 0
  then show ?case using assms(1) by simp
next
  case (Suc i)
  let ?F = "fold (\<lambda>j ob. ob[ns - (j + 1) := take j (ob ! (ns - (j + 1))) @ f j]) [0..<i] obs"
  have i: "i < ns" using Suc.prems by simp
  have ih: "length ?F = ns" "\<forall>r<ns - i. ?F ! r = obs ! r"
    "\<forall>j<i. ?F ! (ns - (j + 1)) = take j (obs ! (ns - (j + 1))) @ f j"
    using Suc.IH i by simp_all
  have step: "fold (\<lambda>j ob. ob[ns - (j + 1) := take j (ob ! (ns - (j + 1))) @ f j]) [0..<Suc i] obs
       = ?F[ns - (i + 1) := take i (?F ! (ns - (i + 1))) @ f i]"
    by simp
  have old: "?F ! (ns - (i + 1)) = obs ! (ns - (i + 1))" using ih(2) i by simp
  show ?case
  proof (intro conjI allI impI)
    show "length (fold (\<lambda>j ob. ob[ns - (j + 1) := take j (ob ! (ns - (j + 1))) @ f j]) [0..<Suc i] obs) = ns"
      unfolding step using ih(1) by simp
  next
    fix r assume "r < ns - Suc i"
    then show "fold (\<lambda>j ob. ob[ns - (j + 1) := take j (ob ! (ns - (j + 1))) @ f j]) [0..<Suc i] obs ! r = obs ! r"
      unfolding step using ih(1,2) by simp
  next
    fix j assume j: "j < Suc i"
    show "fold (\<lambda>j ob. ob[ns - (j + 1) := take j (ob ! (ns - (j + 1))) @ f j]) [0..<Suc i] obs ! (ns - (j + 1))
            = take j (obs ! (ns - (j + 1))) @ f j"
    proof (cases "j = i")
      case True
      then show ?thesis unfolding step using ih(1) old i by simp
    next
      case False
      then have "j < i" using j by simp
      moreover have "ns - (j + 1) \<noteq> ns - (i + 1)" using \<open>j < i\<close> i by arith
      ultimately show ?thesis unfolding step using ih(3) by simp
    qed
  qed
qed

lemma mul_frame_mul: "mul_frame (mul_frame f a) c = mul_frame f (a * c)"
  by (simp add: mul_frame_def mult.assoc)

lemma mul_frame_1: "mul_frame f (Suc 0) = f"
  by (simp add: mul_frame_def)

lemma mul_frame_0: "mul_frame f 0 = replicate (length f) 0"
  by (simp add: mul_frame_def map_replicate_const)

lemma masked_nth:
  assumes x: "length x = t" "\<forall>r\<in>set x. length r = n"
    and y: "length y = t - 1" "\<forall>r\<in>set y. length r = n"
  shows "length (masked x y i) = t - i
       \<and> (\<forall>r<t - i. length (masked x y i ! r) = n
            \<and> (\<forall>e<n. masked x y i ! r ! e = mul_frame (x ! r ! e) (\<Prod>m<i. y ! (r + m) ! e)))"
proof (induction i)
  case 0
  then show ?case using x by (simp add: mul_frame_1)
next
  case (Suc i)
  let ?M = "masked x y i"
  have len: "length ?M = t - i"
    and row: "\<And>r. r < t - i \<Longrightarrow> length (?M ! r) = n"
    and ent: "\<And>r e. r < t - i \<Longrightarrow> e < n \<Longrightarrow> ?M ! r ! e = mul_frame (x ! r ! e) (\<Prod>m<i. y ! (r + m) ! e)"
    using Suc.IH by simp_all
  have l: "length (masked x y (Suc i)) = t - Suc i"
    using len y(1) by simp
  have "length (masked x y (Suc i) ! r) = n
       \<and> (\<forall>e<n. masked x y (Suc i) ! r ! e = mul_frame (x ! r ! e) (\<Prod>m<Suc i. y ! (r + m) ! e))"
    if r: "r < t - Suc i" for r
  proof -
    have r': "r < t - i" "r < length (butlast ?M)" "r < length (drop i y)" "i + r < length y"
      using r len y(1) by simp_all
    have yr: "length (y ! (i + r)) = n" using y(2) r'(4) by simp
    have nb: "butlast ?M ! r = ?M ! r" using r'(2) by (simp add: nth_butlast)
    have eq: "masked x y (Suc i) ! r = map2 mul_frame (?M ! r) (y ! (i + r))"
      using r' nb by simp
    have "masked x y (Suc i) ! r ! e = mul_frame (x ! r ! e) (\<Prod>m<Suc i. y ! (r + m) ! e)" if e: "e < n" for e
    proof -
      have "masked x y (Suc i) ! r ! e = mul_frame (?M ! r ! e) (y ! (i + r) ! e)"
        unfolding eq using e row [OF r'(1)] yr by simp
      also have "\<dots> = mul_frame (x ! r ! e) ((\<Prod>m<i. y ! (r + m) ! e) * y ! (i + r) ! e)"
        using ent [OF r'(1) e] by (simp add: mul_frame_mul)
      also have "(\<Prod>m<i. y ! (r + m) ! e) * y ! (i + r) ! e = (\<Prod>m<Suc i. y ! (r + m) ! e)"
        by (simp add: add.commute)
      finally show ?thesis .
    qed
    moreover have "length (masked x y (Suc i) ! r) = n"
      unfolding eq using row [OF r'(1)] yr by simp
    ultimately show ?thesis by blast
  qed
  then show ?case using l by blast
qed

subsection \<open>The entries of the reconstructed stacks\<close>

lemma swapaxes_nth:
  "r < t \<Longrightarrow> e < length xss \<Longrightarrow> swapaxes t xss ! r ! e = xss ! e ! r"
  by (simp add: swapaxes_def)

lemma swapaxes_shape:
  "length (swapaxes t xss) = t" "\<forall>r\<in>set (swapaxes t xss). length r = length xss"
  by (auto simp: swapaxes_def)

lemma nth_map3:
  assumes "e < E" and "k < N" and "j < J"
  shows "map (\<lambda>e. map (\<lambda>k. map (\<lambda>j. g e k j) [0..<J]) [0..<N]) [0..<E] ! e ! k ! j = g e k j"
    and "length (map (\<lambda>e. map (\<lambda>k. map (\<lambda>j. g e k j) [0..<J]) [0..<N]) [0..<E]) = E"
    and "length (map (\<lambda>e. map (\<lambda>k. map (\<lambda>j. g e k j) [0..<J]) [0..<N]) [0..<E] ! e) = N"
    and "length (map (\<lambda>e. map (\<lambda>k. map (\<lambda>j. g e k j) [0..<J]) [0..<N]) [0..<E] ! e ! k) = J"
  using assms by simp_all

lemma decode_stack4_nth:
  assumes st: "n_stack b = 4" and ok: "frames_ok b enc dn"
    and e: "e < n_env b" and k: "k \<le> n_steps b" and l: "l < 4"
  shows "\<exists>out. decode b enc dn = Inr out
      \<and> length out = n_env b \<and> length (out ! e) = n_steps b + 1 \<and> length (out ! e ! k) = 4
      \<and> out ! e ! k ! (3 - l) =
          mul_frame (frames_of b enc ! e ! (k + 3 - l))
            (\<Prod>m<l. (replicate 3 (replicate (n_env b) 1) @ swapaxes (n_steps b) (map (map keep) (flags_of b dn)))
                       ! (k + 3 - l + m) ! e)"
proof -
  let ?n = "n_steps b"
  let ?E = "n_env b"
  let ?Z = "replicate (?n + 4) (replicate ?E (replicate (height b * width b * n_channels b) (0::pixel)))"
  let ?x = "swapaxes (?n + 4) (frames_of b enc)"
  let ?y = "replicate 3 (replicate ?E (1::nat)) @ swapaxes ?n (map (map keep) (flags_of b dn))"
  let ?O = "fst (fold (decode_step 4) [0..<4] (replicate 4 ?Z, ?x, ?y))"
  let ?out = "map (\<lambda>e. map (\<lambda>k. map (\<lambda>j. ?O ! j ! (k + 3) ! e) [0..<4]) [0..<?n + 1]) [0..<?E]"
  have dec: "decode b enc dn = Inr ?out" using decode_stack4 [OF st ok] .
  have lens: "length (frames_of b enc) = ?E" "length (flags_of b dn) = ?E"
    using frames_of_shape [OF ok] by simp_all
  have xs: "length ?x = ?n + 4" "\<forall>r\<in>set ?x. length r = ?E"
    using swapaxes_shape [of "?n + 4" "frames_of b enc"] lens by simp_all
  have ys: "length ?y = ?n + 4 - 1" "\<forall>r\<in>set ?y. length r = ?E"
    using swapaxes_shape [of ?n "map (map keep) (flags_of b dn)"] lens by auto
  have O: "?O = fold (\<lambda>j ob. ob[4 - (j + 1) := take j (ob ! (4 - (j + 1))) @ masked ?x ?y j]) [0..<4] (replicate 4 ?Z)"
    by (simp only: fold_decode_step fst_conv)
  have "?O ! (4 - (l + 1)) = take l (replicate 4 ?Z ! (4 - (l + 1))) @ masked ?x ?y l"
    unfolding O using fold_rows [of "replicate 4 ?Z" 4 4 "masked ?x ?y"] l by simp
  moreover have "replicate 4 ?Z ! (4 - (l + 1)) = ?Z" using l by simp
  ultimately have row: "?O ! (3 - l) = take l ?Z @ masked ?x ?y l"
    using l by simp
  have tl: "length (take l ?Z) = l" using l by simp
  have "(take l ?Z @ masked ?x ?y l) ! (k + 3) = masked ?x ?y l ! (k + 3 - l)"
    using l tl by (simp add: nth_append)
  then have 1: "?O ! (3 - l) ! (k + 3) ! e = masked ?x ?y l ! (k + 3 - l) ! e"
    using row by simp
  have r: "k + 3 - l < ?n + 4 - l" using k l by arith
  have 2: "masked ?x ?y l ! (k + 3 - l) ! e = mul_frame (?x ! (k + 3 - l) ! e) (\<Prod>m<l. ?y ! (k + 3 - l + m) ! e)"
    using masked_nth [OF xs ys, of l] r e by blast
  have 3: "?x ! (k + 3 - l) ! e = frames_of b enc ! e ! (k + 3 - l)"
    by (rule swapaxes_nth) (use k l e lens in simp_all)
  have j: "3 - l < (4::nat)" by simp
  have k': "k < ?n + 1" using k by simp
  have 4: "?out ! e ! k ! (3 - l) = ?O ! (3 - l) ! (k + 3) ! e"
    by (rule nth_map3(1) [OF e k' j])
  have 5: "length ?out = ?E" "length (?out ! e) = ?n + 1" "length (?out ! e ! k) = 4"
    by (rule nth_map3(2-4) [OF e k' j])+
  show ?thesis
    using dec 5 4 1 2 3 by (intro exI [of _ ?out]) (simp only: simp_thms)
qed

lemma keep_rows_nth:
  assumes "length dn = E" and "\<forall>r\<in>set dn. length r = n" and "e < E" and "m < n + 3"
  shows "(replicate 3 (replicate E (1::nat)) @ swapaxes n (map (map keep) dn)) ! m ! e
           = (if m < 3 then 1 else keep (dn ! e ! (m - 3)))"
proof (cases "m < 3")
  case True
  then show ?thesis using assms(3) by (simp add: nth_append)
next
  case False
  then have m: "m - 3 < n" using assms(4) by simp
  have "dn ! e \<in> set dn" using assms(1,3) by simp
  then have "m - 3 < length (dn ! e)" using assms(2) m by simp
  then have "swapaxes n (map (map keep) dn) ! (m - 3) ! e = keep (dn ! e ! (m - 3))"
    using m assms(1,3) by (simp add: swapaxes_def)
  then show ?thesis using False by (simp add: nth_append swapaxes_def)
qed

text \<open>
  With four stacked frames \<open>decode\<close> does what claim C1 describes. In the stacked
  observation of step \<open>k\<close> of environment \<open>e\<close>, the frame at lag \<open>l\<close> (0 the
  newest; position \<open>3 - l\<close> of the stack) is the raw frame \<open>k + 3 - l\<close> of the
  trace, unless an episode ended at one of the \<open>l\<close> steps before \<open>k\<close>: then it is
  all zeros. The raw frames and the flags are read off the sampled arrays by
  \<open>frames_of\<close> and \<open>flags_of\<close>.
\<close>

lemma decode_no_leak_stack4:
  assumes st: "n_stack b = 4" and ok: "frames_ok b enc dn"
    and e: "e < n_env b" and k: "k \<le> n_steps b" and l: "l < 4"
  shows "\<exists>out. decode b enc dn = Inr out
      \<and> out ! e ! k ! (3 - l) =
          (if \<exists>t<k. k \<le> t + l \<and> flags_of b dn ! e ! t
           then replicate (height b * width b * n_channels b) 0
           else frames_of b enc ! e ! (k + 3 - l))"
proof -
  define X where "X = frames_of b enc"
  define D where "D = flags_of b dn"
  let ?y = "replicate 3 (replicate (n_env b) (1::nat)) @ swapaxes (n_steps b) (map (map keep) D)"
  let ?P = "\<Prod>m<l. ?y ! (k + 3 - l + m) ! e"
  obtain out where out: "decode b enc dn = Inr out"
      "out ! e ! k ! (3 - l) = mul_frame (X ! e ! (k + 3 - l)) ?P"
    using decode_stack4_nth [OF st ok e k l] unfolding X_def D_def by blast
  have lens: "length X = n_env b" "length D = n_env b" "\<forall>r\<in>set D. length r = n_steps b"
    "\<forall>r\<in>set X. length r = n_steps b + 4 \<and> (\<forall>f\<in>set r. length f = height b * width b * n_channels b)"
    using frames_of_shape [OF ok] st unfolding X_def D_def by simp_all
  have yv: "?y ! (k + 3 - l + m) ! e
             = (if k + 3 - l + m < 3 then 1 else keep (D ! e ! (k + 3 - l + m - 3)))" if "m < l" for m
    by (rule keep_rows_nth [OF lens(2,3) e]) (use that k l in arith)
  have fl: "length (X ! e ! (k + 3 - l)) = height b * width b * n_channels b"
  proof -
    have "X ! e \<in> set X" using e lens(1) by simp
    then have r: "length (X ! e) = n_steps b + 4"
      "\<forall>f\<in>set (X ! e). length f = height b * width b * n_channels b"
      using lens(4) by simp_all
    have "k + 3 - l < length (X ! e)" using r(1) k l by arith
    then have "X ! e ! (k + 3 - l) \<in> set (X ! e)" by (rule nth_mem)
    then show ?thesis using r(2) by blast
  qed
  show ?thesis
  proof (cases "\<exists>t<k. k \<le> t + l \<and> D ! e ! t")
    case True
    then obtain t where t: "t < k" "k \<le> t + l" "D ! e ! t" by blast
    let ?m = "t + l - k"
    have m: "?m < l" "k + 3 - l + ?m = t + 3" using t l by arith+
    have "?m \<in> {..<l}" using m(1) by simp
    moreover have "?y ! (k + 3 - l + ?m) ! e = 0"
      using yv [OF m(1)] m(2) t(3) by (simp add: keep_def)
    ultimately have "\<exists>a\<in>{..<l}. ?y ! (k + 3 - l + a) ! e = 0" by (rule rev_bexI)
    then have P0: "?P = 0" by (simp add: prod_zero_iff)
    have "out ! e ! k ! (3 - l) = mul_frame (X ! e ! (k + 3 - l)) 0"
      by (simp only: out(2) P0)
    then have "out ! e ! k ! (3 - l) = replicate (height b * width b * n_channels b) 0"
      by (simp only: mul_frame_0 fl)
    then show ?thesis using out(1) True unfolding X_def D_def by auto
  next
    case False
    have "?y ! (k + 3 - l + m) ! e = 1" if m: "m < l" for m
    proof (cases "k + 3 - l + m < 3")
      case True
      then show ?thesis using yv [OF m] by simp
    next
      case ge: False
      let ?t = "k + 3 - l + m - 3"
      have "?t < k" "k \<le> ?t + l" using ge m l by arith+
      then have "\<not> D ! e ! ?t" using False by blast
      then show ?thesis using yv [OF m] ge by (simp add: keep_def)
    qed
    then have P1: "?P = Suc 0" by simp
    have "out ! e ! k ! (3 - l) = mul_frame (X ! e ! (k + 3 - l)) (Suc 0)"
      by (simp only: out(2) P1)
    then have "out ! e ! k ! (3 - l) = X ! e ! (k + 3 - l)"
      by (simp only: mul_frame_1)
    then show ?thesis using out(1) False unfolding X_def D_def by auto
  qed
qed

section \<open>Properties of \<open>get\<close>\<close>

subsection \<open>Reading the filled slots\<close>

lemma collect_ok:
  "\<forall>r\<in>set rs. \<exists>v. r = Inr v \<Longrightarrow>
     \<exists>vs. collect rs = Inr vs \<and> length vs = length rs \<and> (\<forall>i<length rs. rs ! i = Inr (vs ! i))"
proof (induction rs)
  case Nil
  then show ?case by simp
next
  case (Cons r rs)
  then obtain v where v: "r = Inr v" by auto
  obtain vs where vs: "collect rs = Inr vs" "length vs = length rs"
      "\<forall>i<length rs. rs ! i = Inr (vs ! i)"
    using Cons by auto
  have "collect (r # rs) = Inr (v # vs)" using v vs(1) by (simp add: bind_def)
  moreover have "\<forall>i<length (r # rs). (r # rs) ! i = Inr ((v # vs) ! i)"
    using v vs(3) by (auto simp: nth_Cons split: nat.splits)
  ultimately show ?case using vs(2) by auto
qed

lemma length_concat_uniform:
  "\<forall>xs\<in>set xss. length xs = m \<Longrightarrow> length (concat xss) = length xss * m"
  by (induction xss) simp_all

lemma take_arr_ring:
  assumes r: "ring s hs f arr" and ne: "hs \<noteq> []"
    and idx: "\<forall>i<n. idx ! i < min (length hs) s"
    and ax: "take 1 (shape (f (hd hs))) = [n]"
  shows "\<exists>out cells. take_arr n arr idx [0..<n] = Inr out
           \<and> shape out = n # drop 1 (shape (f (hd hs)))
           \<and> data out = concat cells \<and> length cells = n
           \<and> (\<forall>i<n. \<exists>x\<in>set hs. \<exists>d. broadcast_to (shape (f (hd hs))) (f x) = Some d
                  \<and> cells ! i = take (prod_list (drop 1 (shape (f (hd hs)))))
                                   (drop (i * prod_list (drop 1 (shape (f (hd hs))))) d))"
proof -
  let ?shp = "shape (f (hd hs))"
  let ?m = "prod_list (drop 1 ?shp)"
  obtain st where sl: "arr = Some st" "slot_shape st = ?shp" "length (slots st) = s"
     "\<forall>j<min (length hs) s. \<exists>i<length hs. holds (slot_shape st) (f (hs ! i)) (slots st ! j)"
    using r ne unfolding ring_def by auto
  obtain sh where sh: "?shp = n # sh"
    using ax by (cases ?shp) auto
  let ?rs = "map (\<lambda>i. read_cell st (idx ! i) ([0..<n] ! i)) [0..<n]"
  have cell: "\<exists>x\<in>set hs. \<exists>d. broadcast_to ?shp (f x) = Some d
                \<and> read_cell st (idx ! i) ([0..<n] ! i) = Inr (take ?m (drop (i * ?m) d))" if "i < n" for i
  proof -
    have j: "idx ! i < min (length hs) s" using idx that by simp
    then obtain k where k: "k < length hs" "holds ?shp (f (hs ! k)) (slots st ! (idx ! i))"
      using sl(2,4) by auto
    then have h: "slots st ! (idx ! i) \<noteq> None"
        "slots st ! (idx ! i) = broadcast_to ?shp (f (hs ! k))"
      unfolding holds_def by blast+
    then obtain d where d0: "slots st ! (idx ! i) = Some d" by auto
    then have d: "broadcast_to ?shp (f (hs ! k)) = Some d" "slots st ! (idx ! i) = Some d"
      using h(2) by simp_all
    have "hs ! k \<in> set hs" using k(1) by simp
    moreover have "read_cell st (idx ! i) ([0..<n] ! i) = Inr (take ?m (drop (i * ?m) d))"
      using j sl(2,3) sh d(2) that by (simp add: read_cell_def)
    ultimately show ?thesis using d(1) by blast
  qed
  have "\<forall>r\<in>set ?rs. \<exists>v. r = Inr v"
  proof
    fix r assume "r \<in> set ?rs"
    then obtain i where i: "i < n" "r = read_cell st (idx ! i) ([0..<n] ! i)" by auto
    then show "\<exists>v. r = Inr v" using cell [OF i(1)] by auto
  qed
  from collect_ok [OF this] obtain cells where cells: "collect ?rs = Inr cells" "length cells = n"
      "\<forall>i<n. ?rs ! i = Inr (cells ! i)"
    by auto
  have "\<exists>x\<in>set hs. \<exists>d. broadcast_to ?shp (f x) = Some d \<and> cells ! i = take ?m (drop (i * ?m) d)"
    if "i < n" for i
    using cell [OF that] cells(3) that by auto
  moreover have "take_arr n arr idx [0..<n] = Inr \<lparr> shape = n # drop 1 ?shp, data = concat cells \<rparr>"
    using cells(1) sl(1,2) by (simp add: take_arr_def bind_def)
  ultimately show ?thesis using cells(2) by (intro exI [of _ "\<lparr> shape = n # drop 1 ?shp, data = concat cells \<rparr>"] exI [of _ cells]) simp
qed

lemma take_arr_ring_same:
  assumes r: "ring s hs f arr" and ne: "hs \<noteq> []"
    and idx: "\<forall>i<n. idx ! i < min (length hs) s"
    and same: "\<forall>x\<in>set hs. array_ok (f x) \<and> shape (f x) = n # sh"
  shows "\<exists>out. take_arr n arr idx [0..<n] = Inr out \<and> shape out = n # sh \<and> array_ok out"
proof -
  let ?m = "prod_list sh"
  have hd: "shape (f (hd hs)) = n # sh" using same ne by simp
  then have ax: "take 1 (shape (f (hd hs))) = [n]" by simp
  from take_arr_ring [OF r ne idx ax] obtain out cells where
    out: "take_arr n arr idx [0..<n] = Inr out" "shape out = n # sh"
      "data out = concat cells" "length cells = n"
      "\<forall>i<n. \<exists>x\<in>set hs. \<exists>d. broadcast_to (n # sh) (f x) = Some d
                  \<and> cells ! i = take ?m (drop (i * ?m) d)"
    unfolding hd by auto
  have "\<forall>c\<in>set cells. length c = ?m"
  proof
    fix c assume "c \<in> set cells"
    then obtain i where i: "i < n" "cells ! i = c"
      using out(4) unfolding in_set_conv_nth by blast
    then obtain x d where x: "x \<in> set hs" "broadcast_to (n # sh) (f x) = Some d"
        "cells ! i = take ?m (drop (i * ?m) d)"
      using out(5) by blast
    have "broadcast_to (n # sh) (f x) = Some (data (f x))"
      using same x(1) by (simp add: broadcast_to_same)
    then have "d = data (f x)" using x(2) by simp
    then have "length d = n * ?m" using same x(1) by (simp add: array_ok_def)
    moreover have "i * ?m + ?m \<le> n * ?m" using i(1)
      by (metis Suc_leI add.commute mult_Suc mult_le_mono1)
    ultimately have "length (take ?m (drop (i * ?m) d)) = ?m" by simp
    then show "length c = ?m" using x(3) i(2) by simp
  qed
  then have "length (concat cells) = n * ?m"
    using length_concat_uniform [of cells ?m] out(4) by simp
  then have "array_ok out" using out(2,3) by (simp add: array_ok_def)
  then show ?thesis using out(1,2) by blast
qed

lemma get_returns_buffer: "get b rnd = Inr (out, b') \<Longrightarrow> b' = b"
  by (auto simp: get_def Let_def bind_def split: if_splits sum.splits)

lemma get_empty: "\<not> can_sample b \<Longrightarrow> get b rnd = Inl AssertionError"
  by (simp add: get_def)

lemma get_ok:
  assumes s: "0 < size_slots b0" and inv: "buf_inv b0 hs b" and ne: "hs \<noteq> []"
    and st: "n_stack b0 = 4" and ok: "\<forall>x\<in>set hs. batch_ok b0 x"
  shows "\<exists>out. get b rnd = Inr (out, b)"
proof -
  let ?s = "size_slots b0"
  let ?n = "n_env b"
  let ?idx = "map (\<lambda>i. rnd i mod num_in_buffer b) [0..<?n]"
  have stat: "n_env b = n_env b0" "n_steps b = n_steps b0" "height b = height b0"
      "width b = width b0" "n_channels b = n_channels b0" "n_stack b = n_stack b0"
    and num: "num_in_buffer b = min (length hs) ?s"
    and r: "ring ?s hs b_enc_obs (enc_obs b)" "ring ?s hs b_actions (actions b)"
      "ring ?s hs b_rewards (rewards b)" "ring ?s hs b_mus (mus b)"
      "ring ?s hs b_dones (dones b)" "ring ?s hs b_masks (masks b)"
    using inv by (simp_all add: buf_inv_def)
  have pos: "0 < num_in_buffer b" using num s ne by simp
  have cs: "can_sample b" using pos by (simp add: can_sample_def)
  have idx: "\<forall>i<?n. ?idx ! i < min (length hs) ?s"
  proof (intro allI impI)
    fix i assume "i < ?n"
    then have "?idx ! i = rnd i mod num_in_buffer b" by simp
    moreover have "rnd i mod num_in_buffer b < num_in_buffer b" using pos by simp
    ultimately show "?idx ! i < min (length hs) ?s" using num by simp
  qed
  have hd: "batch_ok b0 (hd hs)" using ok ne by simp
  have ax: "take 1 (shape (b_actions (hd hs))) = [?n]" "take 1 (shape (b_rewards (hd hs))) = [?n]"
    "take 1 (shape (b_mus (hd hs))) = [?n]" "take 1 (shape (b_masks (hd hs))) = [?n]"
    using hd stat by (simp_all add: batch_ok_def env_rows_def)
  have same: "\<forall>x\<in>set hs. array_ok (b_dones x) \<and> shape (b_dones x) = ?n # [n_steps b]"
    "\<forall>x\<in>set hs. array_ok (b_enc_obs x)
        \<and> shape (b_enc_obs x) = ?n # [n_steps b + n_stack b, height b, width b, n_channels b]"
    using ok stat by (simp_all add: batch_ok_def frames_ok_def)
  obtain dn where dn: "take_arr ?n (dones b) ?idx [0..<?n] = Inr dn"
      "shape dn = ?n # [n_steps b]" "array_ok dn"
    using take_arr_ring_same [OF r(5) ne idx same(1)] by blast
  obtain eo where eo: "take_arr ?n (enc_obs b) ?idx [0..<?n] = Inr eo"
      "shape eo = ?n # [n_steps b + n_stack b, height b, width b, n_channels b]" "array_ok eo"
    using take_arr_ring_same [OF r(1) ne idx same(2)] by blast
  obtain ac where ac: "take_arr ?n (actions b) ?idx [0..<?n] = Inr ac"
    using take_arr_ring [OF r(2) ne idx ax(1)] by blast
  obtain rw where rw: "take_arr ?n (rewards b) ?idx [0..<?n] = Inr rw"
    using take_arr_ring [OF r(3) ne idx ax(2)] by blast
  obtain mu where mu: "take_arr ?n (mus b) ?idx [0..<?n] = Inr mu"
    using take_arr_ring [OF r(4) ne idx ax(3)] by blast
  obtain mk where mk: "take_arr ?n (masks b) ?idx [0..<?n] = Inr mk"
    using take_arr_ring [OF r(6) ne idx ax(4)] by blast
  have fo: "frames_ok b eo dn"
    using eo(2,3) dn(2,3) by (simp add: frames_ok_def)
  have "n_stack b = 4" using st stat by simp
  from decode_stack4 [OF this fo] obtain obs where obs: "decode b eo dn = Inr obs" by blast
  show ?thesis
    using cs by (simp add: get_def Let_def bind_def dn(1) eo(1) obs ac rw mu mk)
qed

lemma puts_zero_slots:
  assumes "Buffer_init env n_steps0 n_stack0 size0 = Inr b0" and "size_slots b0 = 0"
  shows "puts b0 (x # xs) = Inl IndexError"
proof -
  have "enc_obs b0 = None" "next_idx b0 = 0"
    using assms(1) by (auto simp: Buffer_init_def split: prod.splits if_splits)
  then have "put b0 x = Inl IndexError"
    using assms(2) by (simp add: put_def allocate_def store_slot_def empty_storage_def bind_def Let_def)
  then show ?thesis by (simp add: bind_def)
qed

subsection \<open>The guard of \<open>get\<close>\<close>

text \<open>
  Claim C8 names the failure of \<open>get\<close> on an empty buffer \<open>EmptyBufferError\<close>. The
  source guards \<open>get\<close> with \<open>assert self.can_sample()\<close>: the failure is an
  \<open>AssertionError\<close>.
\<close>

theorem get_empty_is_assertion:
  "get buffer_2 draw_7 = Inl AssertionError \<and> get buffer_2 draw_7 \<noteq> Inl EmptyBufferError"
  by (simp add: get_def can_sample_def buffer_2_def)

text \<open>
  Claim C8, amended. A buffer is constructed with \<open>n_stack = 4\<close> and filled by
  \<open>put\<close> with batches of the shape the runner produces. Then \<open>can_sample\<close> is
  true exactly when a batch was put; while it is false \<open>get\<close> fails with
  \<open>AssertionError\<close>; once it is true \<open>get\<close> returns a batch, whatever the random
  draw, and the buffer after the call is the buffer before it.
\<close>

theorem get_gate:
  assumes init: "Buffer_init env n_steps0 4 size0 = Inr b0"
    and puts: "puts b0 xs = Inr b"
    and ok: "\<forall>x\<in>set xs. batch_ok b0 x"
  shows "(if can_sample b then \<exists>out. get b rnd = Inr (out, b) else get b rnd = Inl AssertionError)
         \<and> (can_sample b \<longleftrightarrow> xs \<noteq> [])"
proof (cases "xs = []")
  case True
  then have "b = b0" using puts by simp
  then have "num_in_buffer b = 0"
    using init by (auto simp: Buffer_init_def split: prod.splits if_splits)
  then have "\<not> can_sample b" by (simp add: can_sample_def)
  then show ?thesis using True by (simp add: get_empty)
next
  case False
  then obtain x xs' where xs: "xs = x # xs'" by (cases xs) auto
  have s: "0 < size_slots b0"
  proof (rule ccontr)
    assume "\<not> 0 < size_slots b0"
    then have "puts b0 (x # xs') = Inl IndexError"
      using puts_zero_slots [OF init] by simp
    then show False using puts xs by simp
  qed
  have inv0: "buf_inv b0 [] b0" using init by (rule Buffer_init_inv)
  have inv: "buf_inv b0 xs b"
    using puts_inv [OF s inv0 puts] by simp
  have st: "n_stack b0 = 4"
    using init by (auto simp: Buffer_init_def split: prod.splits if_splits)
  have "num_in_buffer b = min (length xs) (size_slots b0)"
    using inv by (simp add: buf_inv_def)
  then have cs: "can_sample b" using s False by (simp add: can_sample_def)
  show ?thesis
    using cs False get_ok [OF s inv False st ok, of rnd] by simp
qed

theorem get_gate_witness:
  "Buffer_init env1 2 4 4 = Inr buffer_2
   \<and> batch_ok buffer_2 batch_a \<and> batch_ok buffer_2 batch_b \<and> batch_ok buffer_2 batch_c
   \<and> (\<exists>b. puts buffer_2 [batch_a, batch_b, batch_c] = Inr b \<and> can_sample b
          \<and> (\<exists>out. get b draw_7 = Inr (out, b)))"
proof -
  have init: "Buffer_init env1 2 4 4 = Inr buffer_2"
    by (simp add: Buffer_init_def env1_def buffer_2_def)
  have ok: "\<forall>x\<in>set [batch_a, batch_b, batch_c]. batch_ok buffer_2 x"
    by (simp add: batch_ok_def frames_ok_def env_rows_def array_ok_def buffer_2_def
        batch_a_def batch_b_def batch_c_def)
  have sh: "\<forall>x\<in>set [batch_a, batch_b, batch_c].
              arrays_ok x \<and> same_shapes (hd ([] @ [batch_a, batch_b, batch_c])) x"
    by (simp add: arrays_ok_def array_ok_def same_shapes_def batch_a_def batch_b_def batch_c_def)
  have "0 < size_slots buffer_2" by (simp add: buffer_2_def)
  then obtain b where b: "puts buffer_2 [batch_a, batch_b, batch_c] = Inr b"
    using puts_ok [OF _ Buffer_init_inv [OF init] sh] by auto
  show ?thesis
    using get_gate [OF init b ok, of draw_7] init ok b by auto
qed

subsection \<open>An evaluated call\<close>

text \<open>One batch stored, the episode ending at its second step.\<close>

lemma put_example: "put buffer_2 batch_a = Inr buffer_2a"
  by (simp add: put_def allocate_def store_slot_def empty_storage_def bind_def Let_def
      buffer_2_def buffer_2a_def batch_a_def broadcast_to_same array_ok_def numeral_2_eq_2)

lemma decode_example:
  "decode buffer_2a \<lparr> shape = [1, 6, 1, 1, 1], data = [1, 2, 3, 4, 5, 6] \<rparr>
                    \<lparr> shape = [1, 2], data = [False, True] \<rparr> =
     Inr [[[[1], [2], [3], [4]], [[2], [3], [4], [5]], [[0], [0], [0], [6]]]]"
  by (simp add: decode_def buffer_2a_def reshape_frames_def reshape_keep_def rows_def keep_def
      fill_keep_def swapaxes_def decode_step_def mul_frame_def bind_def Let_def upt_conv_Cons
      numeral_eq_Suc)

lemma get_example:
  "get buffer_2a draw_7 =
     Inr (([[[[1], [2], [3], [4]], [[2], [3], [4], [5]], [[0], [0], [0], [6]]]],
           b_actions batch_a, b_rewards batch_a, b_mus batch_a, b_dones batch_a, b_masks batch_a),
          buffer_2a)"
proof -
  have n: "n_env buffer_2a = 1" "num_in_buffer buffer_2a = 1" "can_sample buffer_2a"
    by (simp_all add: buffer_2a_def can_sample_def)
  have t: "take_arr (Suc 0) (Some \<lparr> slot_shape = Suc 0 # sh, slots = [Some d, None] \<rparr>) [0] [0]
             = Inr \<lparr> shape = Suc 0 # sh, data = take (prod_list sh) d \<rparr>" for sh and d :: "'a list"
    by (simp add: take_arr_def read_cell_def bind_def)
  have f: "dones buffer_2a = Some \<lparr> slot_shape = Suc 0 # [2], slots = [Some [False, True], None] \<rparr>"
    "enc_obs buffer_2a = Some \<lparr> slot_shape = Suc 0 # [6, 1, 1, 1], slots = [Some [1, 2, 3, 4, 5, 6], None] \<rparr>"
    "actions buffer_2a = Some \<lparr> slot_shape = Suc 0 # [2], slots = [Some [0, 1], None] \<rparr>"
    "rewards buffer_2a = Some \<lparr> slot_shape = Suc 0 # [2], slots = [Some [0, 1], None] \<rparr>"
    "mus buffer_2a = Some \<lparr> slot_shape = Suc 0 # [2, 2], slots = [Some [1/2, 1/2, 1/4, 3/4], None] \<rparr>"
    "masks buffer_2a = Some \<lparr> slot_shape = Suc 0 # [3], slots = [Some [False, False, True], None] \<rparr>"
    by (simp_all add: buffer_2a_def)
  have d: "decode buffer_2a \<lparr> shape = [Suc 0, 6, Suc 0, Suc 0, Suc 0], data = [1, 2, 3, 4, 5, 6] \<rparr>
                    \<lparr> shape = [Suc 0, 2], data = [False, True] \<rparr> =
     Inr [[[[1], [2], [3], [4]], [[2], [3], [4], [5]], [[0], [0], [0], [6]]]]"
    using decode_example by simp
  show ?thesis
    by (simp add: get_def Let_def n f t bind_def d batch_a_def)
qed

section \<open>Properties of the Retrace targets\<close>

subsection \<open>Tensors and batches\<close>

lemma map2_upt: "map2 f (map g [0..<n]) (map h [0..<n]) = map (\<lambda>e. f (g e) (h e)) [0..<n]"
  by (simp add: zip_map_map zip_same_conv_map)

lemma t_ops_upt:
  "t_add (map g [0..<n]) (map h [0..<n]) = map (\<lambda>e. g e + h e) [0..<n]"
  "t_sub (map g [0..<n]) (map h [0..<n]) = map (\<lambda>e. g e - h e) [0..<n]"
  "t_mul (map g [0..<n]) (map h [0..<n]) = map (\<lambda>e. g e * h e) [0..<n]"
  "t_scale c (map g [0..<n]) = map (\<lambda>e. c * g e) [0..<n]"
  "t_one_minus (map g [0..<n]) = map (\<lambda>e. 1 - g e) [0..<n]"
  by (simp_all add: t_add_def t_sub_def t_mul_def t_scale_def t_one_minus_def map2_upt)

lemma batch_to_seq_ok:
  assumes "0 < n" and "length xs = E * n"
  shows "batch_to_seq xs E n = Inr (map (\<lambda>t. map (\<lambda>e. xs ! (e * n + t)) [0..<E]) [0..<n])"
  using assms by (simp add: batch_to_seq_def)

lemma index_bound: "e < E \<Longrightarrow> t < n \<Longrightarrow> e * n + t < E * (n::nat)"
proof -
  assume a: "e < E" "t < n"
  have "e * n + t < e * n + n" using a(2) by simp
  also have "\<dots> = Suc e * n" by simp
  also have "\<dots> \<le> E * n" using a(1) by (intro mult_le_mono1) simp
  finally show ?thesis .
qed

lemma concat_nth_uniform:
  "\<forall>r\<in>set xss. length r = n \<Longrightarrow> e < length xss \<Longrightarrow> t < n \<Longrightarrow> concat xss ! (e * n + t) = xss ! e ! t"
proof (induction xss arbitrary: e)
  case Nil
  then show ?case by simp
next
  case (Cons x xss)
  show ?case
  proof (cases e)
    case 0
    then show ?thesis using Cons.prems by (simp add: nth_append)
  next
    case (Suc e')
    have "(x @ concat xss) ! (n + (e' * n + t)) = concat xss ! (e' * n + t)"
      using Cons.prems(1) by (simp add: nth_append)
    then show ?thesis using Suc Cons by (simp add: add.assoc)
  qed
qed

subsection \<open>The loop computes the recursion of the specification\<close>

lemma carry_spec_end: "n \<le> t \<Longrightarrow> carry_spec gamma n w t = bootstrap w"
  by (subst carry_spec.simps) simp

lemma carry_spec_step:
  "t < n \<Longrightarrow> carry_spec gamma n w t
     = state_value w t + min 1 (rho w t) * (raw_target_spec gamma n w t - q_taken w t)"
  by (subst carry_spec.simps) (simp add: raw_target_spec_def)

lemma retrace_step:
  assumes s: "s = \<lparr> rho_bar = map (\<lambda>t. map (\<lambda>e. min 1 (rho_i ! (e * n + t))) [0..<E]) [0..<n],
                      reward_seq = map (\<lambda>t. map (\<lambda>e. rewards0 ! (e * n + t)) [0..<E]) [0..<n],
                      done_seq = map (\<lambda>t. map (\<lambda>e. dones0 ! (e * n + t)) [0..<E]) [0..<n],
                      q_is = map (\<lambda>t. map (\<lambda>e. q_i ! (e * n + t)) [0..<E]) [0..<n],
                      value_sequence = map (\<lambda>t. map (\<lambda>e. values ! (e * (n + 1) + t)) [0..<E]) [0..<n + 1] \<rparr>"
    and i: "i < n"
  shows "retrace_loop s E gamma (i # rest)
           (map (\<lambda>e. carry_spec gamma n (env_of rewards0 dones0 q_i values rho_i n e) (Suc i)) [0..<E], qrets)
       = retrace_loop s E gamma rest
           (map (\<lambda>e. carry_spec gamma n (env_of rewards0 dones0 q_i values rho_i n e) i) [0..<E],
            qrets @ [map (\<lambda>e. raw_target_spec gamma n (env_of rewards0 dones0 q_i values rho_i n e) i) [0..<E]])"
proof -
  let ?W = "env_of rewards0 dones0 q_i values rho_i n"
  have i': "i < n + 1" using i by simp
  have sq: "rho_bar s ! i = map (\<lambda>e. min 1 (rho_i ! (e * n + i))) [0..<E]"
    "reward_seq s ! i = map (\<lambda>e. rewards0 ! (e * n + i)) [0..<E]"
    "done_seq s ! i = map (\<lambda>e. dones0 ! (e * n + i)) [0..<E]"
    "q_is s ! i = map (\<lambda>e. q_i ! (e * n + i)) [0..<E]"
    "value_sequence s ! i = map (\<lambda>e. values ! (e * (n + 1) + i)) [0..<E]"
    using i i' unfolding s by (simp_all del: upt_Suc)
  have chk: "check_shape [map (\<lambda>e. carry_spec gamma n (?W e) (Suc i)) [0..<E], done_seq s ! i,
        reward_seq s ! i, rho_bar s ! i, q_is s ! i, value_sequence s ! i] E"
    unfolding sq by (simp add: check_shape_def)
  have raw: "t_add (reward_seq s ! i)
        (t_mul (t_scale gamma (map (\<lambda>e. carry_spec gamma n (?W e) (Suc i)) [0..<E]))
               (t_one_minus (done_seq s ! i)))
      = map (\<lambda>e. raw_target_spec gamma n (?W e) i) [0..<E]"
    unfolding sq t_ops_upt by (simp add: raw_target_spec_def env_of_def mult_ac)
  have car: "t_add (t_mul (rho_bar s ! i)
                 (t_sub (map (\<lambda>e. raw_target_spec gamma n (?W e) i) [0..<E]) (q_is s ! i)))
               (value_sequence s ! i)
      = map (\<lambda>e. carry_spec gamma n (?W e) i) [0..<E]"
  proof -
    have "carry_spec gamma n (?W e) i
        = state_value (?W e) i + min 1 (rho (?W e) i) * (raw_target_spec gamma n (?W e) i - q_taken (?W e) i)" for e
      using i by (rule carry_spec_step)
    then show ?thesis
      unfolding sq t_ops_upt by (simp add: env_of_def)
  qed
  show ?thesis
    by (simp only: retrace_loop.simps prod.case chk not_True_eq_False if_False Let_def raw car)
qed

lemma retrace_loop_down:
  assumes s: "s = \<lparr> rho_bar = map (\<lambda>t. map (\<lambda>e. min 1 (rho_i ! (e * n + t))) [0..<E]) [0..<n],
                      reward_seq = map (\<lambda>t. map (\<lambda>e. rewards0 ! (e * n + t)) [0..<E]) [0..<n],
                      done_seq = map (\<lambda>t. map (\<lambda>e. dones0 ! (e * n + t)) [0..<E]) [0..<n],
                      q_is = map (\<lambda>t. map (\<lambda>e. q_i ! (e * n + t)) [0..<E]) [0..<n],
                      value_sequence = map (\<lambda>t. map (\<lambda>e. values ! (e * (n + 1) + t)) [0..<E]) [0..<n + 1] \<rparr>"
  shows "j \<le> n \<Longrightarrow>
     retrace_loop s E gamma (rev [0..<j])
           (map (\<lambda>e. carry_spec gamma n (env_of rewards0 dones0 q_i values rho_i n e) j) [0..<E], qrets)
       = Inr (map (\<lambda>e. carry_spec gamma n (env_of rewards0 dones0 q_i values rho_i n e) 0) [0..<E],
              qrets @ map (\<lambda>t. map (\<lambda>e. raw_target_spec gamma n (env_of rewards0 dones0 q_i values rho_i n e) t) [0..<E])
                         (rev [0..<j]))"
proof (induction j arbitrary: qrets)
  case 0
  then show ?case by simp
next
  case (Suc j)
  have j: "j < n" "j \<le> n" using Suc.prems by simp_all
  have "rev [0..<Suc j] = j # rev [0..<j]" by simp
  then show ?case
    using retrace_step [OF s j(1), where rest = "rev [0..<j]" and qrets = qrets and gamma = gamma]
      Suc.IH [OF j(2)]
    by simp
qed

lemma seq_to_batch_nonempty:
  "ts \<noteq> [] \<Longrightarrow> seq_to_batch ts = Inr (concat (map (\<lambda>e. map (\<lambda>t. t ! e) ts) [0..<length (hd ts)]))"
  by (cases ts) (simp_all add: seq_to_batch_def)

lemma q_retrace_closed:
  assumes n: "0 < n"
    and len: "length rewards0 = E * n" "length dones0 = E * n" "length q_i = E * n"
      "length rho_i = E * n" "length values = E * (n + 1)"
  shows "q_retrace rewards0 dones0 q_i values rho_i E n gamma
       = Inr (concat (map (\<lambda>e. map (\<lambda>t. raw_target_spec gamma n (env_of rewards0 dones0 q_i values rho_i n e) t) [0..<n]) [0..<E]))"
proof -
  let ?W = "env_of rewards0 dones0 q_i values rho_i n"
  let ?R = "\<lambda>t. map (\<lambda>e. raw_target_spec gamma n (?W e) t) [0..<E]"
  define s where "s = \<lparr> rho_bar = map (\<lambda>t. map (\<lambda>e. min 1 (rho_i ! (e * n + t))) [0..<E]) [0..<n],
                      reward_seq = map (\<lambda>t. map (\<lambda>e. rewards0 ! (e * n + t)) [0..<E]) [0..<n],
                      done_seq = map (\<lambda>t. map (\<lambda>e. dones0 ! (e * n + t)) [0..<E]) [0..<n],
                      q_is = map (\<lambda>t. map (\<lambda>e. q_i ! (e * n + t)) [0..<E]) [0..<n],
                      value_sequence = map (\<lambda>t. map (\<lambda>e. values ! (e * (n + 1) + t)) [0..<E]) [0..<n + 1] \<rparr>"
  have rb: "batch_to_seq (t_minimum 1 rho_i) E n = Inr (rho_bar s)"
  proof -
    have "t_minimum 1 rho_i ! (e * n + t) = min 1 (rho_i ! (e * n + t))" if "e < E" "t < n" for e t
      using index_bound [OF that] len(4) by (simp add: t_minimum_def)
    then have "map (\<lambda>t. map (\<lambda>e. t_minimum 1 rho_i ! (e * n + t)) [0..<E]) [0..<n] = rho_bar s"
      by (simp add: s_def)
    moreover have "length (t_minimum 1 rho_i) = E * n" using len(4) by (simp add: t_minimum_def)
    ultimately show ?thesis using n by (simp add: batch_to_seq_def)
  qed
  have rs: "batch_to_seq rewards0 E n = Inr (reward_seq s)"
    and ds: "batch_to_seq dones0 E n = Inr (done_seq s)"
    and qs: "batch_to_seq q_i E n = Inr (q_is s)"
    using n len by (simp_all add: batch_to_seq_def s_def)
  have vs: "batch_to_seq values E (n + 1) = Inr (value_sequence s)"
    using len(5) by (simp add: batch_to_seq_def s_def del: upt_Suc)
  have rec: "\<lparr> rho_bar = rho_bar s, reward_seq = reward_seq s, done_seq = done_seq s,
               q_is = q_is s, value_sequence = value_sequence s \<rparr> = s"
    by simp
  have "last (value_sequence s) = map (\<lambda>e. values ! (e * (n + 1) + n)) [0..<E]"
    by (simp add: s_def)
  also have "\<dots> = map (\<lambda>e. carry_spec gamma n (?W e) n) [0..<E]"
    by (simp add: env_of_def carry_spec_end)
  finally have fin: "last (value_sequence s) = map (\<lambda>e. carry_spec gamma n (?W e) n) [0..<E]" .
  have loop: "retrace_loop s E gamma (rev [0..<n]) (last (value_sequence s), [])
      = Inr (map (\<lambda>e. carry_spec gamma n (?W e) 0) [0..<E], map ?R (rev [0..<n]))"
    unfolding fin using retrace_loop_down [OF s_def, where j = n and qrets = "[]" and gamma = gamma] by simp
  have rv: "rev (map ?R (rev [0..<n])) = map ?R [0..<n]"
    by (simp add: rev_map [symmetric])
  have stb: "seq_to_batch (map ?R [0..<n])
      = Inr (concat (map (\<lambda>e. map (\<lambda>t. raw_target_spec gamma n (?W e) t) [0..<n]) [0..<E]))"
  proof -
    have ne: "map ?R [0..<n] \<noteq> []" using n by simp
    have "hd (map ?R [0..<n]) = ?R 0" using n by (simp add: hd_map upt_conv_Cons)
    then have hl: "length (hd (map ?R [0..<n])) = E" by simp
    have a: "seq_to_batch (map ?R [0..<n])
        = Inr (concat (map (\<lambda>e. map (\<lambda>t. t ! e) (map ?R [0..<n])) [0..<E]))"
      using seq_to_batch_nonempty [OF ne] unfolding hl .
    have b: "map (\<lambda>e. map (\<lambda>t. t ! e) (map ?R [0..<n])) [0..<E]
        = map (\<lambda>e. map (\<lambda>t. raw_target_spec gamma n (?W e) t) [0..<n]) [0..<E]"
      by simp
    show ?thesis using a unfolding b .
  qed
  show ?thesis
    unfolding q_retrace_def rb rs ds qs vs bind_def Let_def
    by (simp only: sum.case rec loop snd_conv rv stb)
qed

lemma q_retrace_nth:
  assumes n: "0 < n"
    and len: "length rewards0 = E * n" "length dones0 = E * n" "length q_i = E * n"
      "length rho_i = E * n" "length values = E * (n + 1)"
  shows "\<exists>out. q_retrace rewards0 dones0 q_i values rho_i E n gamma = Inr out
          \<and> length out = E * n
          \<and> (\<forall>e<E. \<forall>t<n. out ! (e * n + t)
                 = raw_target_spec gamma n (env_of rewards0 dones0 q_i values rho_i n e) t)"
proof -
  let ?rows = "map (\<lambda>e. map (\<lambda>t. raw_target_spec gamma n (env_of rewards0 dones0 q_i values rho_i n e) t) [0..<n]) [0..<E]"
  have q: "q_retrace rewards0 dones0 q_i values rho_i E n gamma = Inr (concat ?rows)"
    using q_retrace_closed [OF n len] .
  have u: "\<forall>r\<in>set ?rows. length r = n" by auto
  have l: "length (concat ?rows) = E * n"
    using length_concat_uniform [OF u] by simp
  have "concat ?rows ! (e * n + t)
      = raw_target_spec gamma n (env_of rewards0 dones0 q_i values rho_i n e) t"
    if "e < E" "t < n" for e t
    using concat_nth_uniform [OF u, of e t] that by simp
  then show ?thesis using q l by blast
qed




lemma concat_index_rows:
  assumes "length xs = E * n"
  shows "concat (map (\<lambda>e. map (\<lambda>t. xs ! (e * n + t)) [0..<n]) [0..<E]) = xs"
proof (rule nth_equalityI)
  let ?rows = "map (\<lambda>e. map (\<lambda>t. xs ! (e * n + t)) [0..<n]) [0..<E]"
  have u: "\<forall>r\<in>set ?rows. length r = n" by auto
  show l: "length (concat ?rows) = length xs"
    using length_concat_uniform [OF u] assms by simp
  fix i assume "i < length (concat ?rows)"
  then have i: "i < E * n" using l assms by simp
  then have n: "0 < n" by (cases n) simp_all
  have e: "i div n < E" using i n by (simp add: less_mult_imp_div_less mult.commute)
  have t: "i mod n < n" using n by simp
  have "concat ?rows ! ((i div n) * n + i mod n) = ?rows ! (i div n) ! (i mod n)"
    using concat_nth_uniform [OF u, of "i div n" "i mod n"] e t by simp
  also have "\<dots> = xs ! ((i div n) * n + i mod n)" using e t by simp
  finally show "concat ?rows ! i = xs ! i" by simp
qed

subsection \<open>The three claims on the Retrace targets\<close>

text \<open>
  Claim C3. On batches of the shapes that \<open>Model.__init__\<close> builds, \<open>q_retrace\<close>
  returns, and the target it returns for step \<open>t\<close> of environment \<open>e\<close> is the
  \<open>raw_target_t\<close> of the recursion as the specification words it: the reward plus
  \<open>gamma * (1 - done_t)\<close> times the carry, which starts as the bootstrap value and
  is updated to \<open>value_t + min(1, rho_t) * (raw_target_t - Q_taken_t)\<close>; the targets
  come in forward time order.
\<close>

theorem q_retrace_recursion:
  assumes "0 < n"
    and "length rewards0 = E * n" and "length dones0 = E * n" and "length q_i = E * n"
    and "length rho_i = E * n" and "length values = E * (n + 1)"
  shows "\<exists>out. q_retrace rewards0 dones0 q_i values rho_i E n gamma = Inr out
          \<and> length out = E * n
          \<and> (\<forall>e<E. \<forall>t<n. out ! (e * n + t)
                 = raw_target_spec gamma n (env_of rewards0 dones0 q_i values rho_i n e) t)"
  using assms by (rule q_retrace_nth)

lemma q_retrace_example:
  "q_retrace [1, 0, 2] [0, 1, 0] [5, 4, 7] [5, 6, 7, 1] [1, 2, 1/2] 1 3 (9/10) = Inr [14/5, 0, 29/10]"
  by (simp add: q_retrace_def batch_to_seq_def t_minimum_def t_add_def t_sub_def t_mul_def
      t_scale_def t_one_minus_def check_shape_def seq_to_batch_def bind_def Let_def upt_conv_Cons
      numeral_3_eq_3)

theorem q_retrace_recursion_witness:
  "(0::nat) < 3 \<and> length [1, 0, 2 :: real] = 1 * 3 \<and> length [5, 6, 7, 1 :: real] = 1 * (3 + 1)
   \<and> q_retrace [1, 0, 2] [0, 1, 0] [5, 4, 7] [5, 6, 7, 1] [1, 2, 1/2] 1 3 (9/10) = Inr [14/5, 0, 29/10]
   \<and> raw_target_spec (9/10) 3 (env_of [1, 0, 2] [0, 1, 0] [5, 4, 7] [5, 6, 7, 1] [1, 2, 1/2] 3 0) 0 = 14/5
   \<and> raw_target_spec (9/10) 3 (env_of [1, 0, 2] [0, 1, 0] [5, 4, 7] [5, 6, 7, 1] [1, 2, 1/2] 3 0) 1 = 0
   \<and> raw_target_spec (9/10) 3 (env_of [1, 0, 2] [0, 1, 0] [5, 4, 7] [5, 6, 7, 1] [1, 2, 1/2] 3 0) 2 = 29/10"
proof -
  let ?W = "env_of [1, 0, 2] [0, 1, 0] [5, 4, 7] [5, 6, 7, 1] [1, 2, 1/2] 3 0"
  obtain out where out: "q_retrace [1, 0, 2] [0, 1, 0] [5, 4, 7] [5, 6, 7, 1] [1, 2, 1/2] 1 3 (9/10) = Inr out"
      "\<forall>e<1. \<forall>t<3. out ! (e * 3 + t) = raw_target_spec (9/10) 3
           (env_of [1, 0, 2] [0, 1, 0] [5, 4, 7] [5, 6, 7, 1] [1, 2, 1/2] 3 e) t"
    using q_retrace_recursion [of 3 "[1, 0, 2]" 1 "[0, 1, 0]" "[5, 4, 7]" "[1, 2, 1/2]" "[5, 6, 7, 1]" "9/10"]
    by auto
  have o: "out = [14/5, 0, 29/10]" using out(1) q_retrace_example by simp
  have "out ! 0 = raw_target_spec (9/10) 3 ?W 0" "out ! 1 = raw_target_spec (9/10) 3 ?W 1"
    "out ! 2 = raw_target_spec (9/10) 3 ?W 2"
    using out(2) by simp_all
  then have "raw_target_spec (9/10) 3 ?W 0 = 14/5" "raw_target_spec (9/10) 3 ?W 1 = 0"
    "raw_target_spec (9/10) 3 ?W 2 = 29/10"
    unfolding o by simp_all
  then show ?thesis using q_retrace_example by simp
qed



text \<open>
  Claim C5. With \<open>gamma = 0\<close> the targets are the rewards, whatever the importance
  weights, the state values, the Q-values and the termination flags.
\<close>

theorem q_retrace_gamma_0:
  assumes n: "0 < n"
    and len: "length rewards0 = E * n" "length dones0 = E * n" "length q_i = E * n"
      "length rho_i = E * n" "length values = E * (n + 1)"
  shows "q_retrace rewards0 dones0 q_i values rho_i E n 0 = Inr rewards0"
proof -
  have "raw_target_spec 0 n (env_of rewards0 dones0 q_i values rho_i n e) t = rewards0 ! (e * n + t)" for e t
    by (simp add: raw_target_spec_def env_of_def)
  then have "q_retrace rewards0 dones0 q_i values rho_i E n 0
      = Inr (concat (map (\<lambda>e. map (\<lambda>t. rewards0 ! (e * n + t)) [0..<n]) [0..<E]))"
    using q_retrace_closed [OF n len, of 0] by simp
  then show ?thesis using concat_index_rows [OF len(1)] by simp
qed

theorem q_retrace_gamma_0_witness:
  "(0::nat) < 3 \<and> length [1, 0, 2 :: real] = 1 * 3 \<and> length [5, 6, 7, 1 :: real] = 1 * (3 + 1)
   \<and> q_retrace [1, 0, 2] [0, 1, 0] [5, 4, 7] [5, 6, 7, 1] [1, 2, 1/2] 1 3 0 = Inr [1, 0, 2]"
  using q_retrace_gamma_0 [of 3 "[1, 0, 2]" 1 "[0, 1, 0]" "[5, 4, 7]" "[1, 2, 1/2]" "[5, 6, 7, 1]"]
  by simp

section \<open>Properties of the trust-region projection\<close>

lemma sum_list_map2_nth:
  "length xs = n \<Longrightarrow> length ys = n \<Longrightarrow> sum_list (map2 f xs ys) = (\<Sum>a<n. f (xs ! a) (ys ! a))"
proof -
  assume l: "length xs = n" "length ys = n"
  have "sum_list (map2 f xs ys) = (\<Sum>a = 0..<length (map2 f xs ys). map2 f xs ys ! a)"
    by (rule sum_list_sum_nth)
  also have "\<dots> = (\<Sum>a = 0..<n. f (xs ! a) (ys ! a))"
    using l by (intro sum.cong) simp_all
  finally show ?thesis by (simp add: atLeast0LessThan)
qed

lemma sum_list_map_nth:
  "length xs = n \<Longrightarrow> sum_list (map f xs) = (\<Sum>a<n. f (xs ! a))"
proof -
  assume l: "length xs = n"
  have "sum_list (map f xs) = (\<Sum>a = 0..<length (map f xs). map f xs ! a)"
    by (rule sum_list_sum_nth)
  also have "\<dots> = (\<Sum>a = 0..<n. f (xs ! a))"
    using l by (intro sum.cong) simp_all
  finally show ?thesis by (simp add: atLeast0LessThan)
qed

lemma has_shape_nth: "has_shape n a m \<Longrightarrow> i < n \<Longrightarrow> length (m ! i) = a"
  by (simp add: has_shape_def list_all_length)

lemma kl_gradient_shape:
  assumes "has_shape n a f_polyak" and "has_shape n a distribution_f"
  shows "has_shape n a (kl_gradient f_polyak distribution_f)"
  using assms by (simp add: has_shape_def kl_gradient_def list_all_length)

lemma kl_gradient_nth:
  assumes "has_shape n a f_polyak" and "has_shape n a distribution_f" and "i < n" and "j < a"
  shows "kl_gradient f_polyak distribution_f ! i ! j = - (f_polyak ! i ! j) / (distribution_f ! i ! j + eps)"
  using assms by (simp add: has_shape_def kl_gradient_def list_all_length)

lemma adjustment_nth:
  assumes k: "has_shape n a k" and g: "has_shape n a g" and i: "i < n"
  shows "length (adjustment k g delta) = n"
    and "adjustment k g delta ! i
         = max 0 (((\<Sum>j<a. k ! i ! j * g ! i ! j) - delta) / ((\<Sum>j<a. k ! i ! j * k ! i ! j) + eps))"
proof -
  have l: "length k = n" "length g = n" "length (k ! i) = a" "length (g ! i) = a"
    using k g i by (simp_all add: has_shape_def list_all_length)
  show "length (adjustment k g delta) = n"
    using l by (simp add: adjustment_def reduce_sum_last_def m_mul_def m_square_def)
  have 1: "reduce_sum_last (m_mul k g) ! i = (\<Sum>j<a. k ! i ! j * g ! i ! j)"
    using l i by (simp add: reduce_sum_last_def m_mul_def sum_list_map2_nth)
  have 2: "reduce_sum_last (m_square k) ! i = (\<Sum>j<a. k ! i ! j * k ! i ! j)"
    using l i by (simp add: reduce_sum_last_def m_square_def sum_list_map_nth)
  have ll: "length (reduce_sum_last (m_mul k g)) = n" "length (reduce_sum_last (m_square k)) = n"
    using l by (simp_all add: reduce_sum_last_def m_mul_def m_square_def)
  show "adjustment k g delta ! i
         = max 0 (((\<Sum>j<a. k ! i ! j * g ! i ! j) - delta) / ((\<Sum>j<a. k ! i ! j * k ! i ! j) + eps))"
    unfolding adjustment_def using ll i 1 2 by simp
qed

lemma trust_region_rows:
  assumes p: "has_shape (n_envs0 * n_steps0) a f_polyak"
    and f: "has_shape (n_envs0 * n_steps0) a distribution_f"
    and g: "has_shape (n_envs0 * n_steps0) a grad"
  shows "\<exists>out. trust_region_gradient f_polyak distribution_f grad delta n_envs0 n_steps0 = Inr out
      \<and> has_shape (n_envs0 * n_steps0) a out
      \<and> (\<forall>i<n_envs0 * n_steps0. \<forall>j<a.
            out ! i ! j = grad ! i ! j
              - adjustment (kl_gradient f_polyak distribution_f) grad delta ! i
                * kl_gradient f_polyak distribution_f ! i ! j)"
proof -
  let ?n = "n_envs0 * n_steps0"
  let ?k = "kl_gradient f_polyak distribution_f"
  let ?adj = "adjustment ?k grad delta"
  let ?out = "m_sub grad (times_column (map (\<lambda>a. [a]) ?adj) ?k)"
  have k: "has_shape ?n a ?k" using p f by (rule kl_gradient_shape)
  have la: "length ?adj = ?n"
    using k g by (simp add: adjustment_def reduce_sum_last_def m_mul_def m_square_def has_shape_def)
  have tr: "trust_region_gradient f_polyak distribution_f grad delta n_envs0 n_steps0 = Inr ?out"
    using la by (simp add: trust_region_gradient_def reshape_column_def bind_def Let_def)
  have lk: "length ?k = ?n" "length grad = ?n" using k g by (simp_all add: has_shape_def)
  have row: "?out ! i = map2 (-) (grad ! i) (map (\<lambda>x. ?adj ! i * x) (?k ! i))" if "i < ?n" for i
    using that la lk by (simp add: m_sub_def times_column_def)
  have sh: "has_shape ?n a ?out"
  proof -
    have "length ?out = ?n" using la lk by (simp add: m_sub_def times_column_def)
    moreover have "length (?out ! i) = a" if "i < ?n" for i
      using row [OF that] has_shape_nth [OF k that] has_shape_nth [OF g that] by simp
    ultimately show ?thesis by (simp add: has_shape_def list_all_length)
  qed
  have "?out ! i ! j = grad ! i ! j - ?adj ! i * ?k ! i ! j" if "i < ?n" "j < a" for i j
    using row [OF that(1)] has_shape_nth [OF k that(1)] has_shape_nth [OF g that(1)] that(2) by simp
  then show ?thesis using tr sh by blast
qed

subsection \<open>The projection of each sample\<close>

text \<open>
  Claim C6. In trust-region mode, on tensors of the shape
  \<open>[n_envs * n_steps, n_act]\<close>, the block returns a gradient of that shape, and for
  each sample \<open>i\<close>, with \<open>k\<close> row \<open>i\<close> of the KL gradient
  \<open>- f_polyak / (distribution_f + eps)\<close> and \<open>g\<close> row \<open>i\<close> of the raw gradient,
  row \<open>i\<close> of the result is
  \<open>g - max(0, (sum(k * g) - delta) / (sum(k * k) + eps)) * k\<close>, which depends on
  no other sample; it is \<open>g\<close> itself when \<open>sum(k * g) \<le> delta\<close>.
\<close>

theorem trust_region_projection:
  assumes p: "has_shape (n_envs0 * n_steps0) n_act f_polyak"
    and f: "has_shape (n_envs0 * n_steps0) n_act distribution_f"
    and g: "has_shape (n_envs0 * n_steps0) n_act grad"
    and k: "k = kl_gradient f_polyak distribution_f"
  shows "\<exists>out. trust_region_gradient f_polyak distribution_f grad delta n_envs0 n_steps0 = Inr out
      \<and> has_shape (n_envs0 * n_steps0) n_act out
      \<and> (\<forall>i<n_envs0 * n_steps0.
            (\<forall>j<n_act. k ! i ! j = - (f_polyak ! i ! j) / (distribution_f ! i ! j + eps)
               \<and> out ! i ! j = grad ! i ! j
                   - max 0 (((\<Sum>a<n_act. k ! i ! a * grad ! i ! a) - delta)
                            / ((\<Sum>a<n_act. k ! i ! a * k ! i ! a) + eps))
                     * k ! i ! j)
          \<and> ((\<Sum>a<n_act. k ! i ! a * grad ! i ! a) \<le> delta \<longrightarrow> out ! i = grad ! i))"
proof -
  let ?n = "n_envs0 * n_steps0"
  have ks: "has_shape ?n n_act k" unfolding k using p f by (rule kl_gradient_shape)
  obtain out where out: "trust_region_gradient f_polyak distribution_f grad delta n_envs0 n_steps0 = Inr out"
      "has_shape ?n n_act out"
      "\<forall>i<?n. \<forall>j<n_act. out ! i ! j = grad ! i ! j - adjustment k grad delta ! i * k ! i ! j"
    using trust_region_rows [OF p f g, of delta] unfolding k by blast
  have row: "(\<forall>j<n_act. k ! i ! j = - (f_polyak ! i ! j) / (distribution_f ! i ! j + eps)
               \<and> out ! i ! j = grad ! i ! j
                   - max 0 (((\<Sum>a<n_act. k ! i ! a * grad ! i ! a) - delta)
                            / ((\<Sum>a<n_act. k ! i ! a * k ! i ! a) + eps))
                     * k ! i ! j)
          \<and> ((\<Sum>a<n_act. k ! i ! a * grad ! i ! a) \<le> delta \<longrightarrow> out ! i = grad ! i)"
    if i: "i < ?n" for i
  proof -
    let ?dot = "\<Sum>a<n_act. k ! i ! a * grad ! i ! a"
    let ?sq = "\<Sum>a<n_act. k ! i ! a * k ! i ! a"
    have adj: "adjustment k grad delta ! i = max 0 ((?dot - delta) / (?sq + eps))"
      by (rule adjustment_nth(2) [OF ks g i])
    have ent: "out ! i ! j = grad ! i ! j - max 0 ((?dot - delta) / (?sq + eps)) * k ! i ! j"
      if "j < n_act" for j
      using out(3) i that adj by simp
    have kv: "k ! i ! j = - (f_polyak ! i ! j) / (distribution_f ! i ! j + eps)" if "j < n_act" for j
      unfolding k by (rule kl_gradient_nth [OF p f i that])
    have noop: "out ! i = grad ! i" if le: "?dot \<le> delta"
    proof (rule nth_equalityI)
      show "length (out ! i) = length (grad ! i)"
        using has_shape_nth [OF out(2) i] has_shape_nth [OF g i] by simp
    next
      fix j assume "j < length (out ! i)"
      then have j: "j < n_act" using has_shape_nth [OF out(2) i] by simp
      have "0 \<le> ?sq" by (intro sum_nonneg) simp
      then have "0 < ?sq + eps" by (simp add: eps_def add_nonneg_pos)
      moreover have "?dot - delta \<le> 0" using le by simp
      ultimately have "(?dot - delta) / (?sq + eps) \<le> 0"
        by (simp add: divide_nonpos_pos)
      then have "max 0 ((?dot - delta) / (?sq + eps)) = 0" by (simp add: max_def)
      then show "out ! i ! j = grad ! i ! j" using ent [OF j] by simp
    qed
    show ?thesis using ent kv noop by blast
  qed
  show ?thesis using out(1,2) row by blast
qed

text \<open>
  One sample with two actions: \<open>k = [-1, -1]\<close> and \<open>g = [-3, -1]\<close>, so that
  \<open>sum(k * g) = 4\<close>. With \<open>delta = 5\<close> the gradient is returned as it is; with
  \<open>delta = 1\<close> it is moved along \<open>k\<close> by \<open>3 / (2 + eps)\<close>.
\<close>

theorem trust_region_projection_witness:
  "has_shape (1 * 1) 2 [[1/2, 1/2]] \<and> has_shape (1 * 1) 2 [[499999/1000000, 499999/1000000]]
   \<and> has_shape (1 * 1) 2 [[-3, -1]]
   \<and> kl_gradient [[1/2, 1/2]] [[499999/1000000, 499999/1000000]] = [[-1, -1]]
   \<and> (\<Sum>a<2. [[-1, -1]] ! 0 ! a * [[-3, -1]] ! 0 ! a) \<le> (5::real)
   \<and> trust_region_gradient [[1/2, 1/2]] [[499999/1000000, 499999/1000000]] [[-3, -1]] 5 1 1 = Inr [[-3, -1]]"
proof -
  have p: "has_shape (1 * 1) 2 [[1/2, 1/2]]"
    and f: "has_shape (1 * 1) 2 [[499999/1000000, 499999/1000000]]"
    and g: "has_shape (1 * 1) 2 [[-3, -1]]"
    by (simp_all add: has_shape_def)
  have k: "[[-1, -1]] = kl_gradient [[1/2, 1/2]] [[499999/1000000, 499999/1000000]]"
    by (simp add: kl_gradient_def eps_def)
  have dot: "(\<Sum>a<2. [[-1, -1]] ! 0 ! a * [[-3, -1]] ! 0 ! a) \<le> (5::real)"
    by (simp add: eval_nat_numeral)
  obtain out where out: "trust_region_gradient [[1/2, 1/2]] [[499999/1000000, 499999/1000000]] [[-3, -1]] 5 1 1 = Inr out"
      "has_shape (1 * 1) 2 out" "out ! 0 = [[-3, -1]] ! 0"
    using trust_region_projection [OF p f g k, of 5] dot by auto
  have "length out = 1" using out(2) by (simp add: has_shape_def)
  then have "out = [out ! 0]" by (cases out) simp_all
  then have "out = [[-3, -1]]" using out(3) by simp
  then show ?thesis using p f g k dot out(1) by simp
qed

lemma trust_region_example:
  "trust_region_gradient [[1/2, 1/2]] [[499999/1000000, 499999/1000000]] [[-3, -1]] 1 1 1
     = Inr [[-3 + 3 / (2 + eps), -1 + 3 / (2 + eps)]]"
  by (simp add: trust_region_gradient_def kl_gradient_def adjustment_def reduce_sum_last_def
      m_mul_def m_square_def m_sub_def times_column_def reshape_column_def bind_def Let_def eps_def)

section \<open>\<open>get\<close> writes only what it allocates\<close>

subsection \<open>Statements that keep the objects below an address\<close>

text \<open>
  \<open>frame_ok n p\<close>: run in a store of at least \<open>n\<close> objects, the program \<open>p\<close>,
  whether it returns or raises, leaves the \<open>Buffer\<close> object and the first \<open>n\<close>
  objects as they are and removes nothing from the store.
\<close>

lemma extends_refl: "extends n s s"
  by (simp add: extends_def)

lemma extends_trans: "extends n s s' \<Longrightarrow> extends n s' s'' \<Longrightarrow> extends n s s''"
  by (simp add: extends_def)

lemma extends_length: "extends n s s' \<Longrightarrow> m \<le> length (heap s) \<Longrightarrow> m \<le> length (heap s')"
  by (simp add: extends_def)

lemma frame_ok_ret: "frame_ok n (ret x)"
  by (simp add: frame_ok_def ret_def extends_refl)

lemma frame_ok_raise: "frame_ok n (raise e)"
  by (simp add: frame_ok_def raise_def extends_refl)

lemma frame_ok_lift: "frame_ok n (lift r)"
  by (simp add: frame_ok_def lift_def extends_refl)

lemma frame_ok_get_self: "frame_ok n get_self"
  by (simp add: frame_ok_def get_self_def extends_refl)

lemma frame_ok_lookup: "frame_ok n (lookup a)"
  by (simp add: frame_ok_def lookup_def extends_refl)

lemma frame_ok_alloc_with: "frame_ok n (alloc_with shp dt d)"
  by (simp add: frame_ok_def alloc_with_def extends_def)

lemma frame_ok_alloc: "frame_ok n (alloc shp dt init)"
  by (simp add: alloc_def frame_ok_alloc_with)

lemma frame_ok_write_block: "n \<le> a \<Longrightarrow> frame_ok n (write_block a off vals)"
  by (simp add: frame_ok_def write_block_def extends_def Let_def)

lemma frame_ok_seq:
  assumes p: "frame_ok n p" and f: "\<And>x. frame_ok n (f x)"
  shows "frame_ok n (seq p f)"
  unfolding frame_ok_def
proof (intro allI impI)
  fix s :: world assume n: "n \<le> length (heap s)"
  obtain r s1 where ps: "p s = (r, s1)" by (cases "p s")
  have e1: "extends n s s1" using p n ps by (auto simp: frame_ok_def)
  show "extends n s (snd (seq p f s))"
  proof (cases r)
    case (Inl e)
    then show ?thesis using ps e1 by (simp add: seq_def)
  next
    case (Inr x)
    have "n \<le> length (heap s1)" using e1 n by (rule extends_length)
    then have "extends n s1 (snd (f x s1))" using f [of x] by (simp add: frame_ok_def)
    then show ?thesis using Inr ps e1 by (simp add: seq_def extends_trans)
  qed
qed

lemma frame_ok_for_each:
  assumes "\<And>i. frame_ok n (body i)"
  shows "frame_ok n (for_each is body)"
proof (induction "is")
  case Nil
  then show ?case by (simp add: frame_ok_ret)
next
  case (Cons i rest)
  then show ?case using assms by (simp add: frame_ok_seq)
qed

lemma frame_ok_stack_loop:
  assumes "n \<le> o_ref"
  shows "frame_ok n (stack_loop b o_ref y_ref is x_var)"
proof (induction "is" arbitrary: x_var)
  case Nil
  then show ?case by (simp add: frame_ok_ret)
next
  case (Cons i rest)
  show ?case
    unfolding stack_loop.simps Let_def
    by (intro frame_ok_seq frame_ok_write_block frame_ok_lookup Cons.IH assms)
qed

subsection \<open>Programs that return new objects\<close>

text \<open>
  \<open>returns_new n A p R\<close>: as \<open>frame_ok n p\<close>, and when \<open>p\<close> returns \<open>x\<close> in a store
  in which the addresses \<open>A\<close> name objects, every address in \<open>R x\<close> is at least
  \<open>n\<close> and names an object of the store after the call.
\<close>

lemma returns_new_ret:
  assumes "\<And>a. a \<in> R x \<Longrightarrow> a \<in> A \<and> n \<le> a"
  shows "returns_new n A (ret x) R"
  using assms by (auto simp: returns_new_def ret_def extends_refl)

lemma returns_new_raise: "returns_new n A (raise e) R"
  by (simp add: returns_new_def raise_def extends_refl)

lemma returns_new_alloc_with: "returns_new n A (alloc_with shp dt d) (\<lambda>x. {x})"
  by (simp add: returns_new_def alloc_with_def extends_def)

lemma returns_new_alloc: "returns_new n A (alloc shp dt init) (\<lambda>x. {x})"
  by (simp add: alloc_def returns_new_alloc_with)

lemma returns_new_seq_frame:
  assumes p: "frame_ok n p" and f: "\<And>x. returns_new n A (f x) R"
  shows "returns_new n A (seq p f) R"
  unfolding returns_new_def
proof (intro allI impI)
  fix s :: world assume pre: "n \<le> length (heap s) \<and> (\<forall>a\<in>A. a < length (heap s))"
  obtain r s1 where ps: "p s = (r, s1)" by (cases "p s")
  have e1: "extends n s s1" using p pre ps by (auto simp: frame_ok_def)
  show "case seq p f s of (r, s') \<Rightarrow> extends n s s'
          \<and> (\<forall>x. r = Inr x \<longrightarrow> (\<forall>a\<in>R x. n \<le> a \<and> a < length (heap s')))"
  proof (cases r)
    case (Inl e)
    then show ?thesis using ps e1 by (simp add: seq_def)
  next
    case (Inr x)
    have "n \<le> length (heap s1) \<and> (\<forall>a\<in>A. a < length (heap s1))"
      using e1 pre by (auto simp: extends_def)
    then have "case f x s1 of (r, s') \<Rightarrow> extends n s1 s'
          \<and> (\<forall>y. r = Inr y \<longrightarrow> (\<forall>a\<in>R y. n \<le> a \<and> a < length (heap s')))"
      using f [of x] by (simp add: returns_new_def)
    then show ?thesis using Inr ps e1 by (auto simp: seq_def intro: extends_trans)
  qed
qed

lemma returns_new_seq:
  assumes p: "returns_new n A p (\<lambda>x. {x})"
    and f: "\<And>x. n \<le> x \<Longrightarrow> returns_new n (insert x A) (f x) R"
  shows "returns_new n A (seq p f) R"
  unfolding returns_new_def
proof (intro allI impI)
  fix s :: world assume pre: "n \<le> length (heap s) \<and> (\<forall>a\<in>A. a < length (heap s))"
  obtain r s1 where ps: "p s = (r, s1)" by (cases "p s")
  have e1: "extends n s s1" and x1: "\<forall>x. r = Inr x \<longrightarrow> n \<le> x \<and> x < length (heap s1)"
    using p pre ps by (auto simp: returns_new_def)
  show "case seq p f s of (r, s') \<Rightarrow> extends n s s'
          \<and> (\<forall>x. r = Inr x \<longrightarrow> (\<forall>a\<in>R x. n \<le> a \<and> a < length (heap s')))"
  proof (cases r)
    case (Inl e)
    then show ?thesis using ps e1 by (simp add: seq_def)
  next
    case (Inr x)
    have x: "n \<le> x" "x < length (heap s1)" using x1 Inr by simp_all
    have "n \<le> length (heap s1) \<and> (\<forall>a\<in>insert x A. a < length (heap s1))"
      using e1 pre x(2) by (auto simp: extends_def)
    then have "case f x s1 of (r, s') \<Rightarrow> extends n s1 s'
          \<and> (\<forall>y. r = Inr y \<longrightarrow> (\<forall>a\<in>R y. n \<le> a \<and> a < length (heap s')))"
      using f [OF x(1)] by (simp add: returns_new_def)
    then show ?thesis using Inr ps e1 by (auto simp: seq_def intro: extends_trans)
  qed
qed

lemma frame_ok_if: "frame_ok n p \<Longrightarrow> frame_ok n q \<Longrightarrow> frame_ok n (if c then p else q)"
  by simp

lemma returns_new_if:
  "returns_new n A p R \<Longrightarrow> returns_new n A q R \<Longrightarrow> returns_new n A (if c then p else q) R"
  by simp

subsection \<open>\<open>take\<close>, \<open>decode\<close> and \<open>get\<close>\<close>

lemma take_h_new: "returns_new n A (take_h arr_ref idx envx) (\<lambda>x. {x})"
proof (cases arr_ref)
  case None
  show ?thesis
    unfolding take_h_def None option.case
    by (intro returns_new_seq_frame frame_ok_get_self returns_new_raise)
next
  case (Some a)
  show ?thesis
    unfolding take_h_def Some option.case
    apply (rule returns_new_seq_frame [OF frame_ok_get_self])
    apply (rule returns_new_seq_frame [OF frame_ok_lookup])
    apply (rule returns_new_seq [OF returns_new_alloc])
    apply (rule returns_new_seq_frame)
     apply (intro frame_ok_for_each frame_ok_seq frame_ok_lookup frame_ok_lift frame_ok_write_block)
     apply assumption
    apply (rule returns_new_ret)
    apply simp
    done
qed

lemma decode_h_new: "returns_new n A (decode_h enc_ref dones_ref) (\<lambda>x. {x})"
  unfolding decode_h_def Let_def
  apply (rule returns_new_seq_frame [OF frame_ok_get_self])
  apply (rule returns_new_seq [OF returns_new_alloc])
  apply (rule returns_new_seq [OF returns_new_alloc])
  apply (intro returns_new_seq_frame frame_ok_lookup frame_ok_lift frame_ok_if
      frame_ok_write_block frame_ok_raise frame_ok_stack_loop
      returns_new_if returns_new_raise returns_new_alloc_with)
     apply assumption+
  done

lemma field_take_new:
  "returns_new n A (seq get_self (\<lambda>b. take_h (field b) idx envx)) (\<lambda>x. {x})"
  by (intro returns_new_seq_frame frame_ok_get_self take_h_new)

lemma get_h_new:
  "returns_new n {} (get_h rnd) (\<lambda>x. case x of (obs, ac, rw, mu, dn, mk) \<Rightarrow> {obs, ac, rw, mu, dn, mk})"
  unfolding get_h_def Let_def
  apply (rule returns_new_seq_frame [OF frame_ok_get_self])
  apply (rule returns_new_if)
   apply (rule returns_new_raise)
  apply (rule returns_new_seq [OF field_take_new])
  apply (rule returns_new_seq [OF field_take_new])
  apply (rule returns_new_seq [OF decode_h_new])
  apply (rule returns_new_seq [OF field_take_new])
  apply (rule returns_new_seq [OF field_take_new])
  apply (rule returns_new_seq [OF field_take_new])
  apply (rule returns_new_seq [OF field_take_new])
  apply (rule returns_new_ret)
  apply auto
  done

subsection \<open>The frame of \<open>get\<close>\<close>

text \<open>
  Claim C10. Whatever the state and the random draw, and whether \<open>get\<close> returns or
  raises: after the call the \<open>Buffer\<close> object is what it was, so \<open>next_idx\<close>,
  \<open>num_in_buffer\<close> and the references to the six arrays are unchanged, and every
  object that the store held before the call, the six arrays among them, is
  unchanged. When \<open>get\<close> returns, each of the six arrays it returns is an object
  that the call allocated: its address is none of the store before the call and
  names an object of the store after it.
\<close>

theorem get_h_read_only:
  "case get_h rnd s of (r, s') \<Rightarrow>
       self_obj s' = self_obj s
     \<and> take (length (heap s)) (heap s') = heap s
     \<and> (case r of
          Inl e \<Rightarrow> True
        | Inr (obs, ac, rw, mu, dn, mk) \<Rightarrow>
            list_all (\<lambda>a. length (heap s) \<le> a \<and> a < length (heap s')) [obs, ac, rw, mu, dn, mk])"
proof -
  obtain r s' where g: "get_h rnd s = (r, s')" by (cases "get_h rnd s")
  have "extends (length (heap s)) s s'
      \<and> (\<forall>x. r = Inr x \<longrightarrow>
            (\<forall>a\<in>(case x of (obs, ac, rw, mu, dn, mk) \<Rightarrow> {obs, ac, rw, mu, dn, mk}).
                length (heap s) \<le> a \<and> a < length (heap s')))"
  proof -
    have "returns_new (length (heap s)) {} (get_h rnd)
            (\<lambda>x. case x of (obs, ac, rw, mu, dn, mk) \<Rightarrow> {obs, ac, rw, mu, dn, mk})"
      by (rule get_h_new)
    then have "length (heap s) \<le> length (heap s) \<and> (\<forall>a\<in>{}. a < length (heap s)) \<longrightarrow>
        (case get_h rnd s of (r, s') \<Rightarrow>
           extends (length (heap s)) s s'
           \<and> (\<forall>x. r = Inr x \<longrightarrow>
                (\<forall>a\<in>(case x of (obs, ac, rw, mu, dn, mk) \<Rightarrow> {obs, ac, rw, mu, dn, mk}).
                    length (heap s) \<le> a \<and> a < length (heap s'))))"
      unfolding returns_new_def by (rule spec)
    then show ?thesis using g by simp
  qed
  then show ?thesis
    unfolding g by (auto simp: extends_def split: sum.splits)
qed

text \<open>
  The example state: the six arrays of the buffer are the objects 0 to 5, and the
  call allocates the objects 6 to 14, of which it returns six.
\<close>

theorem get_h_read_only_witness:
  "length (heap world_2a) = 6
   \<and> fst (get_h draw_7 world_2a) = Inr (10, 11, 12, 13, 6, 14)
   \<and> self_obj (snd (get_h draw_7 world_2a)) = self_obj world_2a
   \<and> take 6 (heap (snd (get_h draw_7 world_2a))) = heap world_2a
   \<and> 14 < length (heap (snd (get_h draw_7 world_2a)))"
proof -
  have l: "length (heap world_2a) = 6" by (simp add: world_2a_def)
  have r: "fst (get_h draw_7 world_2a) = Inr (10, 11, 12, 13, 6, 14)" by code_simp
  show ?thesis
    using get_h_read_only [where rnd = draw_7 and s = world_2a] l r by (simp add: case_prod_unfold)
qed

text \<open>
  The arrays returned in the example hold what \<open>get_example\<close> computes on values:
  the stacked observations and the termination flags.
\<close>

lemma get_h_example:
  "map (\<lambda>a. a_data (heap (snd (get_h draw_7 world_2a)) ! a)) [10, 6]
     = [map (Some \<circ> U8) [1, 2, 3, 4, 2, 3, 4, 5, 0, 0, 0, 6], map (Some \<circ> Flag) [False, True]]"
  by code_simp

text \<open>A write into an object that exists is not within the frame: the property of
  \<open>get\<close> is one of its statements, not of the store.\<close>

lemma write_block_changes:
  "\<not> extends 6 world_2a (snd (write_block 0 0 [Some (U8 9)] world_2a))"
  by (simp add: extends_def write_block_def world_2a_def Let_def cast_def)

lemma write_block_not_frame_ok: "\<not> frame_ok 6 (write_block 0 0 [Some (U8 9)])"
proof
  assume "frame_ok 6 (write_block 0 0 [Some (U8 9)])"
  moreover have "6 \<le> length (heap world_2a)" by (simp add: world_2a_def)
  ultimately have "extends 6 world_2a (snd (write_block 0 0 [Some (U8 9)] world_2a))"
    unfolding frame_ok_def by blast
  then show False using write_block_changes by simp
qed

end
